theory Spec2Isabelle
  imports Complex_Main
begin

section \<open>The ruin simulation (ruin.py)\<close>

text \<open>
  The simulation has exchanges, each with a risk parameter \<open>z\<close>, and traders that hold
  bets on exchanges. Python floats are modelled as real numbers and Python integers as
  \<open>int\<close> (as \<open>nat\<close> where the source only counts with them). An exception is a value
  of type \<open>error\<close> on the left of a sum.
\<close>

datatype error = ZeroDivisionError | ValueError

subsection \<open>Module constants\<close>

text \<open>
  The constants that decide the shape of the simulation are collected in a record, so that
  statements can range over them; \<open>ruin_config\<close> holds the values of the source.
\<close>

record config =
  NUM_EXCHANGES :: nat
  BETS_PER_TRADER :: nat
  MAX_RISK :: int

definition ruin_config :: config where
  "ruin_config = \<lparr>NUM_EXCHANGES = 8, BETS_PER_TRADER = 2, MAX_RISK = 30\<rparr>"

definition NEGATIVE_INFINITY :: real where
  "NEGATIVE_INFINITY = - 10000"

definition NUM_STEPS :: int where
  "NUM_STEPS = 2600"

definition RUIN_DECAY :: nat where
  "RUIN_DECAY = 2"

definition PREMIUM_DECAY :: real where
  "PREMIUM_DECAY = 26 / 10"

definition MAX_PREMIUM :: real where
  "MAX_PREMIUM = 9 / 10000"

definition RETURN_MEAN :: real where
  "RETURN_MEAN = 0"

definition RETURN_STD :: real where
  "RETURN_STD = 7 / 1000"

text \<open>
  \<open>BET_SIZE = 1.0 / BETS_PER_TRADER\<close> is evaluated when the module is loaded and raises
  ZeroDivisionError there when \<open>BETS_PER_TRADER\<close> is 0; \<open>initial_world\<close> below has that branch.
\<close>

definition BET_SIZE :: "config \<Rightarrow> real" where
  "BET_SIZE c = 1 / real (BETS_PER_TRADER c)"

subsection \<open>The random source\<close>

text \<open>
  numpy's global generator is an explicit state: two streams of raw outcomes and the number
  of draws made so far. \<open>randint low high\<close> yields an integer of \<open>[low, high)\<close> and
  raises ValueError when that range is empty or does not fit the 64-bit integers numpy
  draws from (\<open>low < - 2 ^ 63\<close> or \<open>2 ^ 63 < high\<close>); \<open>normal loc scale\<close> yields
  \<open>loc + scale * g\<close> for a standard normal outcome \<open>g\<close>. Every sequence of outcomes
  is the behaviour of some state.
\<close>

record rng =
  int_draws :: "nat \<Rightarrow> nat"
  normal_draws :: "nat \<Rightarrow> real"
  cursor :: nat

definition randint :: "int \<Rightarrow> int \<Rightarrow> rng \<Rightarrow> error + (int \<times> rng)" where
  "randint low high g =
     (if low < - (2 ^ 63) \<or> 2 ^ 63 < high \<or> high \<le> low then Inl ValueError
      else Inr (low + int (int_draws g (cursor g)) mod (high - low),
                g\<lparr>cursor := Suc (cursor g)\<rparr>))"

definition normal :: "real \<Rightarrow> real \<Rightarrow> rng \<Rightarrow> error + (real \<times> rng)" where
  "normal loc scale g =
     (if scale < 0 then Inl ValueError
      else Inr (loc + scale * normal_draws g (cursor g), g\<lparr>cursor := Suc (cursor g)\<rparr>))"

subsection \<open>Objects\<close>

text \<open>
  Exchange and Trader objects are shared and mutated, so they live in a store: an object
  is referred to by its index in \<open>exchange_heap\<close> or \<open>trader_heap\<close>.
  The two defaultdicts of a trader are maps with a default on reading.
\<close>

record exchange =
  z :: int
  traders :: "nat list"
  is_dead :: bool
  premium :: real

record trader =
  trader_id :: nat
  exchanges :: "nat list"
  account_balance :: "int \<rightharpoonup> real"
  account_series :: "int \<rightharpoonup> real list"
  tick :: int

record world =
  exchange_heap :: "exchange list"
  trader_heap :: "trader list"

definition dd_get :: "'v \<Rightarrow> ('k \<rightharpoonup> 'v) \<Rightarrow> 'k \<Rightarrow> 'v" where
  "dd_get d m k = (case m k of None \<Rightarrow> d | Some v \<Rightarrow> v)"

subsection \<open>Exchange\<close>

text \<open>
  \<open>exchange_rank\<close> is the local \<open>rank\<close> of \<open>Exchange.__init__\<close>: the division raises
  when \<open>NUM_EXCHANGES\<close> is 1. A negative base has no real power with the exponent 2.6
  (Python 2 raises ValueError, Python 3 leaves the floats), which is the second error
  branch.
\<close>

definition exchange_rank :: "config \<Rightarrow> int \<Rightarrow> error + real" where
  "exchange_rank c zz =
     (if real (NUM_EXCHANGES c) - 1 = 0 then Inl ZeroDivisionError
      else Inr ((real_of_int zz - real_of_int (MAX_RISK c)) / (real (NUM_EXCHANGES c) - 1)))"

definition Exchange_init :: "config \<Rightarrow> int \<Rightarrow> error + exchange" where
  "Exchange_init c zz =
     (case exchange_rank c zz of
        Inl err \<Rightarrow> Inl err
      | Inr rank \<Rightarrow>
          if 1 - rank < 0 then Inl ValueError
          else (let scale = (1 - rank) powr PREMIUM_DECAY
                in Inr \<lparr>z = zz, traders = [], is_dead = False,
                        premium = scale * MAX_PREMIUM\<rparr>))"

definition register_trader :: "nat \<Rightarrow> exchange \<Rightarrow> exchange" where
  "register_trader t e = e\<lparr>traders := traders e @ [t]\<rparr>"

text \<open>The branch of \<open>Exchange.tick\<close> that decides the payoff.\<close>

definition tick_payoff :: "exchange \<Rightarrow> rng \<Rightarrow> error + (real \<times> exchange \<times> rng)" where
  "tick_payoff e g =
     (if is_dead e then Inr (0, e, g)
      else case randint 0 (z e ^ RUIN_DECAY) g of
        Inl err \<Rightarrow> Inl err
      | Inr (d, g1) \<Rightarrow>
          if d = 0 then Inr (NEGATIVE_INFINITY, e\<lparr>is_dead := True\<rparr>, g1)
          else (case normal (RETURN_MEAN + premium e) RETURN_STD g1 of
                  Inl err \<Rightarrow> Inl err
                | Inr (x, g2) \<Rightarrow> Inr (x, e, g2)))"

subsection \<open>Trader\<close>

text \<open>
  \<open>record_balances\<close> walks the set of the \<open>z\<close> of the trader's exchanges; the steps
  for different keys do not touch each other, so the order of the walk is the order of first
  occurrence. Its parameter \<open>tick\<close> is not used by the source.
\<close>

definition held_zs :: "exchange list \<Rightarrow> trader \<Rightarrow> int list" where
  "held_zs eh t = remdups (map (\<lambda>e. z (eh ! e)) (exchanges t))"

definition record_balance :: "int \<Rightarrow> trader \<Rightarrow> trader" where
  "record_balance zz t =
     (let b = dd_get 0 (account_balance t) zz;
          b' = (if b < 0 then 0 else b)
      in t\<lparr>account_balance := (account_balance t)(zz \<mapsto> b'),
            account_series := (account_series t)(zz \<mapsto> dd_get [] (account_series t) zz @ [b'])\<rparr>)"

definition record_balances :: "exchange list \<Rightarrow> int \<Rightarrow> trader \<Rightarrow> trader" where
  "record_balances eh tk t = fold record_balance (held_zs eh t) t"

definition receive_payoff :: "exchange list \<Rightarrow> int \<Rightarrow> real \<Rightarrow> int \<Rightarrow> trader \<Rightarrow> trader" where
  "receive_payoff eh zz payoff tk t =
     (let t1 = (if tk > tick t then (record_balances eh (tick t) t)\<lparr>tick := tk\<rparr> else t)
      in t1\<lparr>account_balance := (account_balance t1)(zz \<mapsto> dd_get 0 (account_balance t1) zz + payoff)\<rparr>)"

text \<open>
  \<open>Trader.__init__\<close>: the new object gets the next free index of the trader heap; every
  entry of its exchange list adds one bet to the balance of that exchange's \<open>z\<close>, every
  balance seeds a series, and the trader registers once for each entry.
\<close>

definition initial_balance :: "config \<Rightarrow> exchange list \<Rightarrow> nat list \<Rightarrow> (int \<rightharpoonup> real)" where
  "initial_balance c eh exs =
     fold (\<lambda>e m. m(z (eh ! e) \<mapsto> dd_get 0 m (z (eh ! e)) + BET_SIZE c)) exs Map.empty"

definition register_at :: "nat \<Rightarrow> nat \<Rightarrow> world \<Rightarrow> world" where
  "register_at self e w =
     w\<lparr>exchange_heap := (exchange_heap w)[e := register_trader self (exchange_heap w ! e)]\<rparr>"

definition new_trader :: "config \<Rightarrow> exchange list \<Rightarrow> nat \<Rightarrow> nat list \<Rightarrow> trader" where
  "new_trader c eh tid exs =
     (let bal = initial_balance c eh exs
      in \<lparr>trader_id = tid, exchanges = exs, account_balance = bal,
          account_series = (\<lambda>k. map_option (\<lambda>b. [b]) (bal k)), tick = 0\<rparr>)"

definition Trader_init :: "config \<Rightarrow> nat \<Rightarrow> nat list \<Rightarrow> world \<Rightarrow> nat \<times> world" where
  "Trader_init c tid exs w =
     (let self = length (trader_heap w)
      in (self, fold (register_at self) exs
                  (w\<lparr>trader_heap := trader_heap w @ [new_trader c (exchange_heap w) tid exs]\<rparr>)))"

subsection \<open>Exchange.tick\<close>

definition deliver :: "int \<Rightarrow> real \<Rightarrow> int \<Rightarrow> nat \<Rightarrow> world \<Rightarrow> world" where
  "deliver zz payoff tick_num t w =
     w\<lparr>trader_heap := (trader_heap w)
          [t := receive_payoff (exchange_heap w) zz payoff tick_num (trader_heap w ! t)]\<rparr>"

definition Exchange_tick :: "nat \<Rightarrow> int \<Rightarrow> world \<times> rng \<Rightarrow> error + world \<times> rng" where
  "Exchange_tick self tick_num s =
     (case s of (w, g) \<Rightarrow>
        (case tick_payoff (exchange_heap w ! self) g of
           Inl err \<Rightarrow> Inl err
         | Inr (payoff, e, g') \<Rightarrow>
             Inr (fold (deliver (z e) payoff tick_num) (traders e)
                    (w\<lparr>exchange_heap := (exchange_heap w)[self := e]\<rparr>), g')))"

subsection \<open>The driver\<close>

definition contiguous_sublists_size_n :: "'a list \<Rightarrow> nat \<Rightarrow> 'a list list" where
  "contiguous_sublists_size_n l n =
     map (\<lambda>i. take n (drop i l)) [0 ..< nat (int (length l) - (int n - 1))]"

fun collect :: "('a \<Rightarrow> error + 'b) \<Rightarrow> 'a list \<Rightarrow> error + 'b list" where
  "collect f [] = Inr []"
| "collect f (x # xs) =
     (case f x of
        Inl err \<Rightarrow> Inl err
      | Inr y \<Rightarrow> (case collect f xs of Inl err \<Rightarrow> Inl err | Inr ys \<Rightarrow> Inr (y # ys)))"

definition generate_exchanges :: "config \<Rightarrow> error + exchange list" where
  "generate_exchanges c =
     collect (\<lambda>i. Exchange_init c (int i + MAX_RISK c)) [0 ..< NUM_EXCHANGES c]"

definition exchanges_perm :: "nat \<Rightarrow> 'a list \<Rightarrow> 'a list" where
  "exchanges_perm b exs = fold (\<lambda>e acc. fold (\<lambda>i acc'. acc' @ [e]) [0 ..< b] acc) exs []"

text \<open>One round of the comprehension \<open>[Trader(i, exchange_sets[i]) for i in ...]\<close>.\<close>

definition add_trader ::
  "config \<Rightarrow> nat list list \<Rightarrow> nat \<Rightarrow> nat list \<times> world \<Rightarrow> nat list \<times> world" where
  "add_trader c exchange_sets =
     (\<lambda>i (ts, w). case Trader_init c i (exchange_sets ! i) w of (t, w') \<Rightarrow> (ts @ [t], w'))"

definition generate_traders :: "config \<Rightarrow> nat list \<Rightarrow> world \<Rightarrow> nat list \<times> world" where
  "generate_traders c exs w =
     (let exchange_sets = contiguous_sublists_size_n (exchanges_perm (BETS_PER_TRADER c) exs)
                            (BETS_PER_TRADER c)
      in fold (add_trader c exchange_sets) [0 ..< length exchange_sets] ([], w))"

fun for_each :: "('a \<Rightarrow> 's \<Rightarrow> error + 's) \<Rightarrow> 'a list \<Rightarrow> 's \<Rightarrow> error + 's" where
  "for_each f [] s = Inr s"
| "for_each f (x # xs) s =
     (case f x s of Inl err \<Rightarrow> Inl err | Inr s' \<Rightarrow> for_each f xs s')"

definition run_simulation :: "nat list \<Rightarrow> int \<Rightarrow> world \<times> rng \<Rightarrow> error + world \<times> rng" where
  "run_simulation exs steps =
     for_each (\<lambda>i. for_each (\<lambda>ex. Exchange_tick ex (int i)) exs) [0 ..< nat steps]"

text \<open>
  The first two lines of \<open>main\<close>, after the module has been loaded: the exchanges returned
  by \<open>generate_exchanges\<close> are the exchange heap, referred to by \<open>0, 1, ...\<close>.
\<close>

definition initial_world :: "config \<Rightarrow> error + (nat list \<times> nat list \<times> world)" where
  "initial_world c =
     (if BETS_PER_TRADER c = 0 then Inl ZeroDivisionError
      else case generate_exchanges c of
        Inl err \<Rightarrow> Inl err
      | Inr es \<Rightarrow>
          (let exs = [0 ..< length es]
           in case generate_traders c exs \<lparr>exchange_heap = es, trader_heap = []\<rparr> of
                (ts, w) \<Rightarrow> Inr (exs, ts, w)))"

definition main :: "config \<Rightarrow> rng \<Rightarrow> error + (nat list \<times> nat list \<times> world \<times> rng)" where
  "main c g =
     (case initial_world c of
        Inl err \<Rightarrow> Inl err
      | Inr (exs, ts, w) \<Rightarrow>
          (case run_simulation exs NUM_STEPS (w, g) of
             Inl err \<Rightarrow> Inl err
           | Inr (w', g') \<Rightarrow> Inr (ts, exs, w', g')))"

text \<open>
  Any sequence of calls of \<open>Exchange.tick\<close>, each with an exchange and a tick number:
  the runs of \<open>run_simulation\<close> are among them.
\<close>

definition tick_calls :: "(nat \<times> int) list \<Rightarrow> world \<times> rng \<Rightarrow> error + world \<times> rng" where
  "tick_calls cs = for_each (\<lambda>(ex, n). Exchange_tick ex n) cs"


subsection \<open>Reference definitions and sample inputs\<close>

text \<open>
  The round-robin order, as a list: the whole list of exchanges, repeated \<open>b\<close> times.
\<close>

definition round_robin :: "nat \<Rightarrow> 'a list \<Rightarrow> 'a list" where
  "round_robin b exs = concat (replicate b exs)"

text \<open>Two exchanges with \<open>z\<close> 30 and 31, two bets for each trader.\<close>

definition small_config :: config where
  "small_config = \<lparr>NUM_EXCHANGES = 2, BETS_PER_TRADER = 2, MAX_RISK = 30\<rparr>"

definition small_heap :: "exchange list" where
  "small_heap = [\<lparr>z = 30, traders = [], is_dead = False, premium = MAX_PREMIUM\<rparr>,
                 \<lparr>z = 31, traders = [], is_dead = False, premium = 0\<rparr>]"

definition small_world :: world where
  "small_world = \<lparr>exchange_heap = small_heap, trader_heap = []\<rparr>"

text \<open>The local \<open>exchange_sets\<close> of \<open>generate_traders\<close>.\<close>

definition exchange_sets_of :: "config \<Rightarrow> nat list \<Rightarrow> nat list list" where
  "exchange_sets_of c exs =
     contiguous_sublists_size_n (exchanges_perm (BETS_PER_TRADER c) exs) (BETS_PER_TRADER c)"

text \<open>Whether a rank was computed and lies between two bounds.\<close>

definition rank_in :: "real \<Rightarrow> real \<Rightarrow> error + real \<Rightarrow> bool" where
  "rank_in lo hi r = (case r of Inl err \<Rightarrow> False | Inr x \<Rightarrow> lo \<le> x \<and> x \<le> hi)"

text \<open>
  A world whose only exchange has failed, with one trader registered there and one that is
  not; a world whose only exchange has \<open>z = 1\<close>; and a state of the random source.
\<close>

definition dead_world :: world where
  "dead_world =
     \<lparr>exchange_heap = [\<lparr>z = 30, traders = [0], is_dead = True, premium = MAX_PREMIUM\<rparr>],
      trader_heap = [\<lparr>trader_id = 0, exchanges = [0], account_balance = [30 \<mapsto> 1 / 4],
                      account_series = [30 \<mapsto> [1 / 2, 1 / 4]], tick = 1\<rparr>,
                     \<lparr>trader_id = 1, exchanges = [], account_balance = Map.empty,
                      account_series = Map.empty, tick = 1\<rparr>]\<rparr>"

definition risk_one_world :: world where
  "risk_one_world =
     \<lparr>exchange_heap = [\<lparr>z = 1, traders = [], is_dead = False, premium = MAX_PREMIUM\<rparr>],
      trader_heap = []\<rparr>"

definition sample_rng :: rng where
  "sample_rng = \<lparr>int_draws = (\<lambda>k. 5), normal_draws = (\<lambda>k. 0), cursor = 0\<rparr>"

subsection \<open>Predicates used in the invariants of a run\<close>

text \<open>The clamp of \<^verbatim>\<open>record_balances\<close>, one bet added to a balance table, the calls
  that \<^verbatim>\<open>run_simulation\<close> makes, in order, and the shape of a trader's series while
  the simulation runs.\<close>

definition clamp :: "real \<Rightarrow> real" where
  "clamp b = (if b < 0 then 0 else b)"

definition add_bet :: "('a \<Rightarrow> 'k) \<Rightarrow> real \<Rightarrow> 'a \<Rightarrow> ('k \<rightharpoonup> real) \<Rightarrow> ('k \<rightharpoonup> real)" where
  "add_bet zf B e m = m(zf e \<mapsto> dd_get 0 m (zf e) + B)"

definition sim_calls :: "nat list \<Rightarrow> int \<Rightarrow> (nat \<times> int) list" where
  "sim_calls exs steps = concat (map (\<lambda>i. map (\<lambda>ex. (ex, int i)) exs) [0 ..< nat steps])"

definition series_nonneg :: "trader \<Rightarrow> bool" where
  "series_nonneg t = (\<forall>k s. account_series t k = Some s \<longrightarrow> (\<forall>x\<in>set s. 0 \<le> x))"

definition series_len :: "nat \<Rightarrow> trader \<Rightarrow> bool" where
  "series_len L t = (\<forall>k s. account_series t k = Some s \<longrightarrow> length s = L)"

definition keys_ok :: "exchange list \<Rightarrow> trader \<Rightarrow> bool" where
  "keys_ok eh t = (dom (account_series t) = set (held_zs eh t))"

definition at_step :: "nat \<Rightarrow> trader \<Rightarrow> bool" where
  "at_step n t = (dom (account_series t) = {} \<or> (tick t = int n \<and> series_len (Suc n) t))"

definition before_step :: "nat \<Rightarrow> trader \<Rightarrow> bool" where
  "before_step n t = (at_step n t \<or> (\<exists>m. n = Suc m \<and> at_step m t))"

definition linked :: "exchange list \<Rightarrow> nat list \<Rightarrow> nat \<Rightarrow> trader \<Rightarrow> bool" where
  "linked eh0 exs t x =
     (keys_ok eh0 x \<and> (held_zs eh0 x = [] \<or> (\<exists>r\<in>set exs. t \<in> set (traders (eh0 ! r)))))"

definition steady :: "exchange list \<Rightarrow> nat list \<Rightarrow> nat \<Rightarrow> world \<Rightarrow> bool" where
  "steady eh0 exs n w =
     ((\<forall>x. z (exchange_heap w ! x) = z (eh0 ! x))
      \<and> (\<forall>x. traders (exchange_heap w ! x) = traders (eh0 ! x))
      \<and> (\<forall>t<length (trader_heap w).
            linked eh0 exs t (trader_heap w ! t) \<and> before_step n (trader_heap w ! t)))"

definition settled :: "exchange list \<Rightarrow> nat list \<Rightarrow> nat \<Rightarrow> world \<Rightarrow> bool" where
  "settled eh0 exs n w =
     ((\<forall>x. z (exchange_heap w ! x) = z (eh0 ! x))
      \<and> (\<forall>x. traders (exchange_heap w ! x) = traders (eh0 ! x))
      \<and> (\<forall>t<length (trader_heap w).
            linked eh0 exs t (trader_heap w ! t) \<and> at_step n (trader_heap w ! t)))"

definition same_lengths :: "trader \<Rightarrow> bool" where
  "same_lengths t = (\<forall>k s k' s'. account_series t k = Some s \<longrightarrow> account_series t k' = Some s' \<longrightarrow>
                       length s = length s')"

text \<open>After its exchange has failed, the balance \<open>b\<close> of key \<open>zz\<close> waits for the next
  record: either nothing was appended to the series \<open>s\<close> yet, or the clamp of \<open>b\<close> was.\<close>

definition pending :: "int \<Rightarrow> real list \<Rightarrow> real \<Rightarrow> trader \<Rightarrow> bool" where
  "pending zz s b x =
     ((dd_get [] (account_series x) zz = s \<and> dd_get 0 (account_balance x) zz = b)
      \<or> (\<exists>more. dd_get [] (account_series x) zz = s @ clamp b # more))"

text \<open>The balance trader \<open>t\<close> has for the key \<open>k\<close> when \<open>j\<close> steps of the simulation
  are over (0 if that run raises).\<close>

definition balance_after :: "nat list \<Rightarrow> world \<times> rng \<Rightarrow> nat \<Rightarrow> nat \<Rightarrow> int \<Rightarrow> real" where
  "balance_after exs s j t k =
     (case run_simulation exs (int j) s of
        Inl err \<Rightarrow> 0
      | Inr (w', g') \<Rightarrow> dd_get 0 (account_balance (trader_heap w' ! t)) k)"

subsection \<open>A sample run\<close>

text \<open>Two exchanges, two bets per trader: the world that \<^verbatim>\<open>generate_traders\<close> builds,
  and draws under which exchange 0 pays a very large return at step 0 and fails at step 1.\<close>

definition small_initial :: world where
  "small_initial = snd (generate_traders small_config [0, 1] small_world)"

definition lucky_rng :: rng where
  "lucky_rng = \<lparr>int_draws = (\<lambda>k. if k = 4 then 0 else 1),
                 normal_draws = (\<lambda>k. if k = 1 then 10000000 else 0), cursor = 0\<rparr>"

text \<open>Draws under which exchange 0 fails at step 0, and trader 0 as that step leaves it.\<close>

definition ruin_rng :: rng where
  "ruin_rng = \<lparr>int_draws = (\<lambda>k. if k = 0 then 0 else 1), normal_draws = (\<lambda>k. 0), cursor = 0\<rparr>"

definition ruined_trader :: trader where
  "ruined_trader = \<lparr>trader_id = 0, exchanges = [0, 0], account_balance = [30 \<mapsto> - 19999],
                     account_series = [30 \<mapsto> [1]], tick = 0\<rparr>"




section \<open>Lemmas\<close>

subsection \<open>The flattened list and its windows\<close>

lemma fold_snoc_replicate: "fold (\<lambda>i acc'. acc' @ [e]) is acc = acc @ replicate (length is) e"
  by (induction "is" arbitrary: acc) (simp_all add: replicate_append_same)

lemma exchanges_perm_fold:
  "fold (\<lambda>e acc. fold (\<lambda>i acc'. acc' @ [e]) [0 ..< b] acc) exs acc = acc @ concat (map (replicate b) exs)"
  by (induction exs arbitrary: acc) (simp_all add: fold_snoc_replicate)

lemma exchanges_perm_blocks: "exchanges_perm b exs = concat (map (replicate b) exs)"
  by (simp add: exchanges_perm_def exchanges_perm_fold)

lemma length_exchanges_perm: "length (exchanges_perm b exs) = length exs * b"
  by (induction exs) (simp_all add: exchanges_perm_blocks)

lemma nth_exchanges_perm:
  "k < length exs * b \<Longrightarrow> exchanges_perm b exs ! k = exs ! (k div b)"
proof (induction exs arbitrary: k)
  case Nil
  then show ?case by simp
next
  case (Cons e exs)
  have b: "0 < b" using Cons.prems by (cases b) simp_all
  show ?case
  proof (cases "k < b")
    case True
    then show ?thesis by (simp add: exchanges_perm_blocks nth_append)
  next
    case False
    then have kb: "b \<le> k" by simp
    have "k - b < length exs * b" using Cons.prems kb by simp
    then have "exchanges_perm b exs ! (k - b) = exs ! ((k - b) div b)" by (rule Cons.IH)
    moreover have "k div b = Suc ((k - b) div b)" using kb b by (simp add: le_div_geq)
    ultimately show ?thesis using False
      by (simp add: exchanges_perm_blocks nth_append nth_Cons')
  qed
qed

lemma length_contiguous:
  "length (contiguous_sublists_size_n l n) = nat (int (length l) - (int n - 1))"
  by (simp add: contiguous_sublists_size_n_def)

lemma nth_contiguous:
  "i < nat (int (length l) - (int n - 1)) \<Longrightarrow> contiguous_sublists_size_n l n ! i = take n (drop i l)"
  by (simp add: contiguous_sublists_size_n_def)

subsection \<open>Registration and the construction of traders\<close>

lemma register_fold_trader_heap [simp]:
  "trader_heap (fold (register_at s) exs w) = trader_heap w"
  by (induction exs arbitrary: w) (simp_all add: register_at_def)

lemma register_fold_length [simp]:
  "length (exchange_heap (fold (register_at s) exs w)) = length (exchange_heap w)"
  by (induction exs arbitrary: w) (simp_all add: register_at_def)

lemma nth_update_same_field:
  "f x = f (xs ! i) \<Longrightarrow> f (xs[i := x] ! r) = f (xs ! r)"
  by (cases "i < length xs") (auto simp: nth_list_update list_update_beyond)

lemma register_at_z: "z (exchange_heap (register_at s e w) ! r) = z (exchange_heap w ! r)"
  by (simp add: register_at_def register_trader_def nth_update_same_field)

lemma register_fold_z [simp]:
  "z (exchange_heap (fold (register_at s) exs w) ! r) = z (exchange_heap w ! r)"
  by (induction exs arbitrary: w) (simp_all add: register_at_z)

lemma register_at_is_dead:
  "is_dead (exchange_heap (register_at s e w) ! r) = is_dead (exchange_heap w ! r)"
  by (simp add: register_at_def register_trader_def nth_update_same_field)

lemma register_fold_is_dead [simp]:
  "is_dead (exchange_heap (fold (register_at s) exs w) ! r) = is_dead (exchange_heap w ! r)"
  by (induction exs arbitrary: w) (simp_all add: register_at_is_dead)

lemma register_at_premium:
  "premium (exchange_heap (register_at s e w) ! r) = premium (exchange_heap w ! r)"
  by (simp add: register_at_def register_trader_def nth_update_same_field)

lemma register_fold_premium [simp]:
  "premium (exchange_heap (fold (register_at s) exs w) ! r) = premium (exchange_heap w ! r)"
  by (induction exs arbitrary: w) (simp_all add: register_at_premium)

lemma register_at_traders:
  "r < length (exchange_heap w) \<Longrightarrow>
   traders (exchange_heap (register_at s e w) ! r) =
     traders (exchange_heap w ! r) @ (if e = r then [s] else [])"
  by (simp add: register_at_def register_trader_def nth_list_update)

lemma register_fold_traders:
  "r < length (exchange_heap w) \<Longrightarrow>
   traders (exchange_heap (fold (register_at s) exs w) ! r) =
     traders (exchange_heap w ! r) @ replicate (count_list exs r) s"
proof (induction exs arbitrary: w)
  case Nil
  then show ?case by simp
next
  case (Cons e exs)
  have len: "r < length (exchange_heap (register_at s e w))"
    using Cons.prems by (simp add: register_at_def)
  show ?case
    using Cons.IH [OF len] Cons.prems
    by (simp add: register_at_traders replicate_app_Cons_same)
qed

lemma initial_balance_cong:
  "\<forall>r. z (eh' ! r) = z (eh ! r) \<Longrightarrow> initial_balance c eh' exs = initial_balance c eh exs"
  by (simp add: initial_balance_def)

lemma new_trader_cong:
  "\<forall>r. z (eh' ! r) = z (eh ! r) \<Longrightarrow> new_trader c eh' tid exs = new_trader c eh tid exs"
  using initial_balance_cong [of eh' eh c exs] by (simp add: new_trader_def)

lemma exchanges_new_trader [simp]: "exchanges (new_trader c eh tid exs) = exs"
  by (simp add: new_trader_def Let_def)

lemma trader_id_new_trader [simp]: "trader_id (new_trader c eh tid exs) = tid"
  by (simp add: new_trader_def Let_def)

lemma tick_new_trader [simp]: "tick (new_trader c eh tid exs) = 0"
  by (simp add: new_trader_def Let_def)

lemma generate_fold:
  assumes "fold (add_trader c sets) is (ts, w) = (ts', w')"
  shows "ts' = ts @ [length (trader_heap w) ..< length (trader_heap w) + length is]
       \<and> trader_heap w' = trader_heap w @ map (\<lambda>i. new_trader c (exchange_heap w) i (sets ! i)) is
       \<and> length (exchange_heap w') = length (exchange_heap w)
       \<and> (\<forall>r. z (exchange_heap w' ! r) = z (exchange_heap w ! r))
       \<and> (\<forall>r. is_dead (exchange_heap w' ! r) = is_dead (exchange_heap w ! r))
       \<and> (\<forall>r. premium (exchange_heap w' ! r) = premium (exchange_heap w ! r))
       \<and> (\<forall>r<length (exchange_heap w). traders (exchange_heap w' ! r) =
             traders (exchange_heap w ! r) @
             concat (map (\<lambda>k. replicate (count_list (sets ! (is ! k)) r) (length (trader_heap w) + k))
                       [0 ..< length is]))"
  using assms
proof (induction "is" arbitrary: ts w)
  case Nil
  then show ?case by simp
next
  case (Cons i "is")
  define w1 where "w1 = snd (Trader_init c i (sets ! i) w)"
  have step: "add_trader c sets i (ts, w) = (ts @ [length (trader_heap w)], w1)"
    by (simp add: add_trader_def w1_def Trader_init_def Let_def)
  have th1: "trader_heap w1 = trader_heap w @ [new_trader c (exchange_heap w) i (sets ! i)]"
    by (simp add: w1_def Trader_init_def Let_def)
  have len1: "length (exchange_heap w1) = length (exchange_heap w)"
    by (simp add: w1_def Trader_init_def Let_def)
  have z1: "\<forall>r. z (exchange_heap w1 ! r) = z (exchange_heap w ! r)"
    by (simp add: w1_def Trader_init_def Let_def)
  have d1: "\<forall>r. is_dead (exchange_heap w1 ! r) = is_dead (exchange_heap w ! r)"
    by (simp add: w1_def Trader_init_def Let_def)
  have p1: "\<forall>r. premium (exchange_heap w1 ! r) = premium (exchange_heap w ! r)"
    by (simp add: w1_def Trader_init_def Let_def)
  have t1: "\<forall>r<length (exchange_heap w). traders (exchange_heap w1 ! r) =
              traders (exchange_heap w ! r) @ replicate (count_list (sets ! i) r) (length (trader_heap w))"
    by (simp add: w1_def Trader_init_def Let_def register_fold_traders)
  from Cons.prems have "fold (add_trader c sets) is (ts @ [length (trader_heap w)], w1) = (ts', w')"
    by (simp add: step)
  note IH = Cons.IH [OF this]
  have nt: "(\<lambda>i. new_trader c (exchange_heap w1) i (sets ! i)) = (\<lambda>i. new_trader c (exchange_heap w) i (sets ! i))"
    using new_trader_cong [OF z1] by simp
  have a: "ts' = ts @ [length (trader_heap w) ..< length (trader_heap w) + length (i # is)]"
  proof -
    have "[length (trader_heap w) ..< length (trader_heap w) + length (i # is)] =
          length (trader_heap w) # [Suc (length (trader_heap w)) ..< Suc (length (trader_heap w)) + length is]"
      by (simp add: upt_conv_Cons del: upt_Suc)
    moreover have "ts' = (ts @ [length (trader_heap w)]) @
          [length (trader_heap w1) ..< length (trader_heap w1) + length is]"
      using IH by blast
    ultimately show ?thesis by (simp add: th1)
  qed
  have b: "trader_heap w' = trader_heap w @ map (\<lambda>i. new_trader c (exchange_heap w) i (sets ! i)) (i # is)"
    using IH by (simp add: th1 nt)
  have c: "length (exchange_heap w') = length (exchange_heap w)"
    using IH len1 by simp
  have d: "\<forall>r. z (exchange_heap w' ! r) = z (exchange_heap w ! r)"
    using IH z1 by simp
  have e: "\<forall>r. is_dead (exchange_heap w' ! r) = is_dead (exchange_heap w ! r)"
    using IH d1 by simp
  have f: "\<forall>r. premium (exchange_heap w' ! r) = premium (exchange_heap w ! r)"
    using IH p1 by simp
  have g: "\<forall>r<length (exchange_heap w). traders (exchange_heap w' ! r) =
             traders (exchange_heap w ! r) @
             concat (map (\<lambda>k. replicate (count_list (sets ! ((i # is) ! k)) r) (length (trader_heap w) + k))
                       [0 ..< length (i # is)])"
  proof (intro allI impI)
    fix r assume r: "r < length (exchange_heap w)"
    have "traders (exchange_heap w' ! r) = traders (exchange_heap w1 ! r) @
             concat (map (\<lambda>k. replicate (count_list (sets ! (is ! k)) r) (length (trader_heap w1) + k))
                       [0 ..< length is])"
      using IH r len1 by simp
    moreover have "[0 ..< length (i # is)] = 0 # map Suc [0 ..< length is]"
      by (simp add: upt_conv_Cons map_Suc_upt del: upt_Suc)
    ultimately show "traders (exchange_heap w' ! r) =
             traders (exchange_heap w ! r) @
             concat (map (\<lambda>k. replicate (count_list (sets ! ((i # is) ! k)) r) (length (trader_heap w) + k))
                       [0 ..< length (i # is)])"
      using t1 r by (simp add: th1 comp_def del: upt_Suc)
  qed
  from a b c d e f g show ?case by blast
qed

lemma generate_exchanges_small: "generate_exchanges small_config = Inr small_heap"
  by (simp add: generate_exchanges_def small_config_def small_heap_def Exchange_init_def exchange_rank_def upt_rec numeral_nat)

lemma generate_traders_result:
  assumes "generate_traders c exs w = (ts, w')"
  shows "ts = [length (trader_heap w) ..< length (trader_heap w) + length (exchange_sets_of c exs)]"
    and "trader_heap w' = trader_heap w @
           map (\<lambda>i. new_trader c (exchange_heap w) i (exchange_sets_of c exs ! i))
             [0 ..< length (exchange_sets_of c exs)]"
    and "length (exchange_heap w') = length (exchange_heap w)"
    and "z (exchange_heap w' ! r) = z (exchange_heap w ! r)"
    and "is_dead (exchange_heap w' ! r) = is_dead (exchange_heap w ! r)"
    and "premium (exchange_heap w' ! r) = premium (exchange_heap w ! r)"
    and "r < length (exchange_heap w) \<Longrightarrow> traders (exchange_heap w' ! r) =
             traders (exchange_heap w ! r) @
             concat (map (\<lambda>k. replicate (count_list (exchange_sets_of c exs ! k) r) (length (trader_heap w) + k))
                       [0 ..< length (exchange_sets_of c exs)])"
proof -
  have f: "fold (add_trader c (exchange_sets_of c exs)) [0 ..< length (exchange_sets_of c exs)] ([], w) = (ts, w')"
    using assms by (simp add: generate_traders_def exchange_sets_of_def Let_def)
  note g = generate_fold [OF f, unfolded length_upt minus_nat.diff_0 append_Nil]
  show "ts = [length (trader_heap w) ..< length (trader_heap w) + length (exchange_sets_of c exs)]"
    using g by simp
  show "trader_heap w' = trader_heap w @
           map (\<lambda>i. new_trader c (exchange_heap w) i (exchange_sets_of c exs ! i))
             [0 ..< length (exchange_sets_of c exs)]"
    using g by blast
  show "length (exchange_heap w') = length (exchange_heap w)" using g by blast
  show "z (exchange_heap w' ! r) = z (exchange_heap w ! r)" using g by blast
  show "is_dead (exchange_heap w' ! r) = is_dead (exchange_heap w ! r)" using g by blast
  show "premium (exchange_heap w' ! r) = premium (exchange_heap w ! r)" using g by blast
  show "r < length (exchange_heap w) \<Longrightarrow> traders (exchange_heap w' ! r) =
             traders (exchange_heap w ! r) @
             concat (map (\<lambda>k. replicate (count_list (exchange_sets_of c exs ! k) r) (length (trader_heap w) + k))
                       [0 ..< length (exchange_sets_of c exs)])"
  proof -
    assume r: "r < length (exchange_heap w)"
    have meq: "map (\<lambda>k. replicate (count_list (exchange_sets_of c exs ! ([0 ..< length (exchange_sets_of c exs)] ! k)) r)
                  (length (trader_heap w) + k)) [0 ..< length (exchange_sets_of c exs)] =
          map (\<lambda>k. replicate (count_list (exchange_sets_of c exs ! k) r) (length (trader_heap w) + k))
                  [0 ..< length (exchange_sets_of c exs)]"
      by (rule map_cong) simp_all
    have "traders (exchange_heap w' ! r) =
             traders (exchange_heap w ! r) @
             concat (map (\<lambda>k. replicate (count_list (exchange_sets_of c exs ! ([0 ..< length (exchange_sets_of c exs)] ! k)) r)
                  (length (trader_heap w) + k)) [0 ..< length (exchange_sets_of c exs)])"
      using g r by blast
    then show ?thesis by (simp only: meq)
  qed
qed

lemma length_exchange_sets:
  "length (exchange_sets_of c exs) =
     nat (int (length exs * BETS_PER_TRADER c) - (int (BETS_PER_TRADER c) - 1))"
  by (simp add: exchange_sets_of_def length_contiguous length_exchanges_perm)

lemma length_exchange_sets_pos:
  assumes "1 \<le> length exs" "1 \<le> BETS_PER_TRADER c"
  shows "length (exchange_sets_of c exs) = length exs * BETS_PER_TRADER c - BETS_PER_TRADER c + 1"
proof -
  have le: "BETS_PER_TRADER c \<le> length exs * BETS_PER_TRADER c" using assms by simp
  have "int (length exs * BETS_PER_TRADER c) - (int (BETS_PER_TRADER c) - 1) =
        int (length exs * BETS_PER_TRADER c - BETS_PER_TRADER c + 1)"
    using le by (simp add: of_nat_diff)
  then show ?thesis by (simp only: length_exchange_sets nat_int)
qed

lemma nth_exchange_sets:
  "i < length (exchange_sets_of c exs) \<Longrightarrow>
   exchange_sets_of c exs ! i = take (BETS_PER_TRADER c) (drop i (exchanges_perm (BETS_PER_TRADER c) exs))"
  by (simp add: exchange_sets_of_def length_contiguous nth_contiguous)

lemma generated_trader_exchanges:
  assumes "i < length (fst (generate_traders c exs w))"
  shows "length (fst (generate_traders c exs w)) = length (exchange_sets_of c exs)"
    and "fst (generate_traders c exs w) ! i = length (trader_heap w) + i"
    and "exchanges (trader_heap (snd (generate_traders c exs w)) ! (fst (generate_traders c exs w) ! i)) =
          take (BETS_PER_TRADER c) (drop i (exchanges_perm (BETS_PER_TRADER c) exs))"
    and "trader_id (trader_heap (snd (generate_traders c exs w)) ! (fst (generate_traders c exs w) ! i)) = i"
proof -
  obtain ts w' where g: "generate_traders c exs w = (ts, w')" by (cases "generate_traders c exs w")
  note r = generate_traders_result [OF g]
  have len: "length ts = length (exchange_sets_of c exs)" using r(1) by simp
  show "length (fst (generate_traders c exs w)) = length (exchange_sets_of c exs)"
    using g len by simp
  have i: "i < length (exchange_sets_of c exs)" using assms g len by simp
  have nth: "ts ! i = length (trader_heap w) + i" using r(1) i by simp
  show "fst (generate_traders c exs w) ! i = length (trader_heap w) + i" using g nth by simp
  have t: "trader_heap w' ! (ts ! i) = new_trader c (exchange_heap w) i (exchange_sets_of c exs ! i)"
    using i by (simp add: r(2) nth nth_append del: upt_Suc)
  show "exchanges (trader_heap (snd (generate_traders c exs w)) ! (fst (generate_traders c exs w) ! i)) =
          take (BETS_PER_TRADER c) (drop i (exchanges_perm (BETS_PER_TRADER c) exs))"
    using g t i by (simp add: nth_exchange_sets)
  show "trader_id (trader_heap (snd (generate_traders c exs w)) ! (fst (generate_traders c exs w) ! i)) = i"
    using g t by simp
qed

lemma length_generate_traders:
  "length (fst (generate_traders c exs w)) = length (exchange_sets_of c exs)"
proof -
  obtain ts w' where g: "generate_traders c exs w = (ts, w')" by (cases "generate_traders c exs w")
  show ?thesis using generate_traders_result(1) [OF g] g by simp
qed

lemma exchanges_perm_small: "exchanges_perm (BETS_PER_TRADER small_config) [0::nat, 1] = [0, 0, 1, 1]"
  by (simp add: exchanges_perm_blocks small_config_def numeral_2_eq_2)

lemma window_elements:
  assumes b: "0 < b" and i: "i + b \<le> length exs * b"
  shows "set (take b (drop i (exchanges_perm b exs))) \<subseteq> {exs ! (i div b), exs ! Suc (i div b)}"
proof
  fix x assume "x \<in> set (take b (drop i (exchanges_perm b exs)))"
  then obtain j where j: "j < b" and x: "x = exchanges_perm b exs ! (i + j)"
    using i by (auto simp: in_set_conv_nth length_exchanges_perm)
  have ij: "i + j < length exs * b" using i j by simp
  have "(i + j) div b = i div b \<or> (i + j) div b = Suc (i div b)"
  proof -
    have "i + j = (i div b) * b + (i mod b + j)" by simp
    have lo: "i div b \<le> (i + j) div b" by (simp add: div_le_mono)
    have "i + j < (i div b) * b + 2 * b"
    proof -
      have "i mod b < b" using b by simp
      moreover have "i = (i div b) * b + i mod b" by simp
      ultimately show ?thesis using j by linarith
    qed
    then have "i + j < (i div b + 2) * b" by (simp add: algebra_simps)
    then have "(i + j) div b < i div b + 2" using b by (simp add: less_mult_imp_div_less)
    with lo show ?thesis by linarith
  qed
  then show "x \<in> {exs ! (i div b), exs ! Suc (i div b)}"
    using x nth_exchanges_perm [OF ij] by auto
qed

lemma first_window:
  assumes "exs \<noteq> []"
  shows "take b (drop 0 (exchanges_perm b exs)) = replicate b (hd exs)"
  using assms by (cases exs) (simp_all add: exchanges_perm_blocks)

lemma last_window:
  assumes "exs \<noteq> []"
  shows "take b (drop (length exs * b - b) (exchanges_perm b exs)) = replicate b (last exs)"
proof -
  have "concat (map (replicate b) (butlast exs @ [last exs])) =
        concat (map (replicate b) (butlast exs)) @ replicate b (last exs)"
    by simp
  then have "exchanges_perm b exs = exchanges_perm b (butlast exs) @ replicate b (last exs)"
    using assms by (simp add: exchanges_perm_blocks)
  moreover have "length (exchanges_perm b (butlast exs)) = length exs * b - b"
    by (simp add: length_exchanges_perm diff_mult_distrib)
  ultimately show ?thesis by simp
qed

subsection \<open>Exchanges made by \<open>generate_exchanges\<close>\<close>

lemma collect_Inr:
  "collect f xs = Inr ys \<Longrightarrow> length ys = length xs \<and> (\<forall>i<length xs. f (xs ! i) = Inr (ys ! i))"
proof (induction xs arbitrary: ys)
  case Nil
  then show ?case by simp
next
  case (Cons x xs)
  from Cons.prems obtain y ys' where y: "f x = Inr y" and ys': "collect f xs = Inr ys'" and ys: "ys = y # ys'"
    by (auto split: sum.splits)
  show ?case using Cons.IH [OF ys'] y ys by (auto simp: nth_Cons')
qed

lemma collect_total:
  "(\<And>x. x \<in> set xs \<Longrightarrow> \<exists>y. f x = Inr y) \<Longrightarrow> \<exists>ys. collect f xs = Inr ys"
proof (induction xs)
  case Nil
  then show ?case by simp
next
  case (Cons x xs)
  obtain y where "f x = Inr y" using Cons.prems by auto
  moreover obtain ys where "collect f xs = Inr ys" using Cons by auto
  ultimately show ?case by simp
qed

lemma generate_exchanges_Inr:
  assumes "generate_exchanges c = Inr es"
  shows "length es = NUM_EXCHANGES c"
    and "i < NUM_EXCHANGES c \<Longrightarrow> Exchange_init c (int i + MAX_RISK c) = Inr (es ! i)"
  using collect_Inr [OF assms [unfolded generate_exchanges_def]] by simp_all

lemma Exchange_init_Inr:
  assumes "Exchange_init c zz = Inr e"
  shows "z e = zz" and "traders e = []" and "\<not> is_dead e"
    and "\<exists>r. exchange_rank c zz = Inr r \<and> 0 \<le> 1 - r \<and> premium e = (1 - r) powr PREMIUM_DECAY * MAX_PREMIUM"
  using assms by (auto simp: Exchange_init_def Let_def split: sum.splits if_splits)

lemma exchange_rank_generated:
  assumes "i < NUM_EXCHANGES c" and "NUM_EXCHANGES c \<noteq> 1"
  shows "exchange_rank c (int i + MAX_RISK c) = Inr (real i / (real (NUM_EXCHANGES c) - 1))"
  using assms by (simp add: exchange_rank_def)

lemma generated_exchange:
  assumes g: "generate_exchanges c = Inr es" and i: "i < length es"
  shows "z (es ! i) = int i + MAX_RISK c"
    and "traders (es ! i) = []"
    and "\<not> is_dead (es ! i)"
    and "NUM_EXCHANGES c \<noteq> 1"
    and "exchange_rank c (z (es ! i)) = Inr (real i / (real (NUM_EXCHANGES c) - 1))"
    and "premium (es ! i) = (1 - real i / (real (NUM_EXCHANGES c) - 1)) powr PREMIUM_DECAY * MAX_PREMIUM"
proof -
  have iN: "i < NUM_EXCHANGES c" using i generate_exchanges_Inr(1) [OF g] by simp
  note e = Exchange_init_Inr [OF generate_exchanges_Inr(2) [OF g iN]]
  show zi: "z (es ! i) = int i + MAX_RISK c" by (rule e(1))
  show "traders (es ! i) = []" by (rule e(2))
  show "\<not> is_dead (es ! i)" by (rule e(3))
  from e(4) obtain r where r: "exchange_rank c (int i + MAX_RISK c) = Inr r"
    and p: "premium (es ! i) = (1 - r) powr PREMIUM_DECAY * MAX_PREMIUM" by blast
  show n1: "NUM_EXCHANGES c \<noteq> 1"
    using r by (auto simp: exchange_rank_def split: if_splits)
  have rk: "exchange_rank c (int i + MAX_RISK c) = Inr (real i / (real (NUM_EXCHANGES c) - 1))"
    by (rule exchange_rank_generated [OF iN n1])
  show "exchange_rank c (z (es ! i)) = Inr (real i / (real (NUM_EXCHANGES c) - 1))"
    using rk zi by simp
  show "premium (es ! i) = (1 - real i / (real (NUM_EXCHANGES c) - 1)) powr PREMIUM_DECAY * MAX_PREMIUM"
    using r rk p by simp
qed

lemma rank_bounds:
  assumes "i < n"
  shows "0 \<le> real i / (real n - 1)" and "real i / (real n - 1) \<le> 1"
proof -
  have "real (Suc i) \<le> real n" using assms by (simp only: of_nat_le_iff Suc_le_eq)
  then have a: "real i \<le> real n - 1" by simp
  have "0 \<le> real i" by simp
  with a have nn: "0 \<le> real n - 1" by linarith
  show "0 \<le> real i / (real n - 1)" using nn by simp
  show "real i / (real n - 1) \<le> 1"
  proof (cases "real n - 1 = 0")
    case True
    then show ?thesis by simp
  next
    case False
    with nn have "0 < real n - 1" by linarith
    then show ?thesis using a by (simp only: divide_le_eq_1_pos)
  qed
qed

lemma last_rank:
  assumes "i < n" and "n \<noteq> 1"
  shows "real (n - 1) / (real n - 1) = 1"
proof -
  have "1 \<le> n" using assms by simp
  then have "real (n - 1) = real n - 1" by (simp add: of_nat_diff)
  moreover have "real n - 1 \<noteq> 0" using assms by simp
  ultimately show ?thesis by simp
qed

lemma premium_strict:
  assumes "i < j" and "j < n"
  shows "(1 - real j / (real n - 1)) powr PREMIUM_DECAY * MAX_PREMIUM
       < (1 - real i / (real n - 1)) powr PREMIUM_DECAY * MAX_PREMIUM"
proof -
  have "real (Suc j) \<le> real n" using assms(2) by (simp only: of_nat_le_iff Suc_le_eq)
  then have jn: "real j \<le> real n - 1" by simp
  have ij: "real i < real j" using assms(1) by simp
  have pos: "0 < real n - 1" using jn ij by linarith
  have "real i / (real n - 1) < real j / (real n - 1)"
    using ij pos by (simp only: divide_strict_right_mono)
  then have lt: "1 - real j / (real n - 1) < 1 - real i / (real n - 1)" by linarith
  have "real j / (real n - 1) \<le> 1" using jn pos by (simp only: divide_le_eq_1_pos)
  then have nn: "0 \<le> 1 - real j / (real n - 1)" by linarith
  have "(1 - real j / (real n - 1)) powr PREMIUM_DECAY < (1 - real i / (real n - 1)) powr PREMIUM_DECAY"
    by (rule powr_less_mono2 [OF _ nn lt]) (simp add: PREMIUM_DECAY_def)
  moreover have "0 < MAX_PREMIUM" by (simp add: MAX_PREMIUM_def)
  ultimately show ?thesis by (simp only: mult_strict_right_mono)
qed

subsection \<open>What \<open>Exchange.tick\<close> keeps\<close>

lemma exchange_heap_deliver [simp]:
  "exchange_heap (deliver zz payoff n t w) = exchange_heap w"
  by (simp add: deliver_def)

lemma length_trader_heap_deliver [simp]:
  "length (trader_heap (deliver zz payoff n t w)) = length (trader_heap w)"
  by (simp add: deliver_def)

lemma exchange_heap_fold_deliver [simp]:
  "exchange_heap (fold (deliver zz payoff n) ts w) = exchange_heap w"
  by (induction ts arbitrary: w) simp_all

lemma length_trader_heap_fold_deliver [simp]:
  "length (trader_heap (fold (deliver zz payoff n) ts w)) = length (trader_heap w)"
  by (induction ts arbitrary: w) simp_all

lemma tick_payoff_dead: "is_dead e \<Longrightarrow> tick_payoff e g = Inr (0, e, g)"
  by (simp add: tick_payoff_def)

lemma tick_payoff_Inr:
  assumes "tick_payoff e g = Inr (p, e', g')"
  shows "z e' = z e" and "traders e' = traders e" and "premium e' = premium e"
    and "is_dead e \<Longrightarrow> is_dead e'"
  using assms
  by (auto simp: tick_payoff_def randint_def normal_def split: if_splits sum.splits prod.splits)

lemma Exchange_tick_Inr:
  assumes "Exchange_tick r n (w, g) = Inr (w', g')"
  obtains p e where "tick_payoff (exchange_heap w ! r) g = Inr (p, e, g')"
    and "w' = fold (deliver (z e) p n) (traders e) (w\<lparr>exchange_heap := (exchange_heap w)[r := e]\<rparr>)"
  using assms by (auto simp: Exchange_tick_def split: sum.splits prod.splits)

lemma Exchange_tick_heap:
  assumes "Exchange_tick r n (w, g) = Inr (w', g')"
  shows "length (exchange_heap w') = length (exchange_heap w)"
    and "z (exchange_heap w' ! x) = z (exchange_heap w ! x)"
    and "traders (exchange_heap w' ! x) = traders (exchange_heap w ! x)"
    and "premium (exchange_heap w' ! x) = premium (exchange_heap w ! x)"
    and "is_dead (exchange_heap w ! x) \<Longrightarrow> is_dead (exchange_heap w' ! x)"
    and "length (trader_heap w') = length (trader_heap w)"
proof -
  from assms obtain p e where t: "tick_payoff (exchange_heap w ! r) g = Inr (p, e, g')"
    and w': "w' = fold (deliver (z e) p n) (traders e) (w\<lparr>exchange_heap := (exchange_heap w)[r := e]\<rparr>)"
    by (rule Exchange_tick_Inr)
  note e = tick_payoff_Inr [OF t]
  have eh: "exchange_heap w' = (exchange_heap w)[r := e]" by (simp add: w')
  show "length (exchange_heap w') = length (exchange_heap w)" by (simp add: eh)
  show "z (exchange_heap w' ! x) = z (exchange_heap w ! x)"
    unfolding eh by (rule nth_update_same_field) (rule e(1))
  show "traders (exchange_heap w' ! x) = traders (exchange_heap w ! x)"
    unfolding eh by (rule nth_update_same_field) (rule e(2))
  show "premium (exchange_heap w' ! x) = premium (exchange_heap w ! x)"
    unfolding eh by (rule nth_update_same_field) (rule e(3))
  show "is_dead (exchange_heap w' ! x)" if d: "is_dead (exchange_heap w ! x)"
  proof (cases "r = x \<and> r < length (exchange_heap w)")
    case True
    then show ?thesis using e(4) d by (simp add: eh)
  next
    case False
    then have "(exchange_heap w)[r := e] ! x = exchange_heap w ! x"
      by (cases "r < length (exchange_heap w)") (auto simp: list_update_beyond)
    then show ?thesis using d by (simp add: eh)
  qed
  show "length (trader_heap w') = length (trader_heap w)" by (simp add: w')
qed

lemma tick_calls_Nil [simp]: "tick_calls [] s = Inr s"
  by (simp add: tick_calls_def)

lemma tick_calls_Cons:
  "tick_calls ((r, n) # cs) s =
     (case Exchange_tick r n s of Inl err \<Rightarrow> Inl err | Inr s' \<Rightarrow> tick_calls cs s')"
  by (simp add: tick_calls_def split: sum.splits)

lemma tick_calls_heap:
  assumes "tick_calls cs (w, g) = Inr (w', g')"
  shows "length (exchange_heap w') = length (exchange_heap w)
       \<and> z (exchange_heap w' ! x) = z (exchange_heap w ! x)
       \<and> traders (exchange_heap w' ! x) = traders (exchange_heap w ! x)
       \<and> premium (exchange_heap w' ! x) = premium (exchange_heap w ! x)
       \<and> (is_dead (exchange_heap w ! x) \<longrightarrow> is_dead (exchange_heap w' ! x))
       \<and> length (trader_heap w') = length (trader_heap w)"
  using assms
proof (induction cs arbitrary: w g)
  case Nil
  then show ?case by simp
next
  case (Cons c cs)
  obtain r n where c: "c = (r, n)" by (cases c)
  from Cons.prems obtain w1 g1 where t: "Exchange_tick r n (w, g) = Inr (w1, g1)"
    and rest: "tick_calls cs (w1, g1) = Inr (w', g')"
    by (auto simp: c tick_calls_Cons split: sum.splits)
  note h = Exchange_tick_heap [OF t]
  show ?case using Cons.IH [OF rest] h(5) [of x] by (simp add: h(1,2,3,4,6))
qed

lemma clamp_nonneg [simp]: "0 \<le> clamp b"
  by (simp add: clamp_def)

lemma record_balance_fields [simp]:
  "exchanges (record_balance k t) = exchanges t"
  "tick (record_balance k t) = tick t"
  "trader_id (record_balance k t) = trader_id t"
  by (simp_all add: record_balance_def Let_def)

lemma record_balance_series:
  "account_series (record_balance k t) =
     (account_series t)(k \<mapsto> dd_get [] (account_series t) k @ [clamp (dd_get 0 (account_balance t) k)])"
  by (simp add: record_balance_def Let_def clamp_def)

lemma record_balance_balance:
  "account_balance (record_balance k t) =
     (account_balance t)(k \<mapsto> clamp (dd_get 0 (account_balance t) k))"
  by (simp add: record_balance_def Let_def clamp_def)

lemma fold_record_balance_fields [simp]:
  "exchanges (fold record_balance ks t) = exchanges t"
  "tick (fold record_balance ks t) = tick t"
  "trader_id (fold record_balance ks t) = trader_id t"
  by (induction ks arbitrary: t) simp_all

lemma fold_record_balance_series:
  "distinct ks \<Longrightarrow>
   account_series (fold record_balance ks t) k =
     (if k \<in> set ks
      then Some (dd_get [] (account_series t) k @ [clamp (dd_get 0 (account_balance t) k)])
      else account_series t k)"
proof (induction ks arbitrary: t)
  case Nil
  then show ?case by simp
next
  case (Cons a ks)
  then show ?case
    by (auto simp: record_balance_series record_balance_balance dd_get_def)
qed

lemma fold_record_balance_balance:
  "distinct ks \<Longrightarrow>
   account_balance (fold record_balance ks t) k =
     (if k \<in> set ks then Some (clamp (dd_get 0 (account_balance t) k)) else account_balance t k)"
proof (induction ks arbitrary: t)
  case Nil
  then show ?case by simp
next
  case (Cons a ks)
  then show ?case
    by (auto simp: record_balance_series record_balance_balance dd_get_def)
qed

lemma distinct_held_zs [simp]: "distinct (held_zs eh t)"
  by (simp add: held_zs_def)

lemma record_balances_fields [simp]:
  "exchanges (record_balances eh n t) = exchanges t"
  "tick (record_balances eh n t) = tick t"
  "trader_id (record_balances eh n t) = trader_id t"
  by (simp_all add: record_balances_def)

lemma record_balances_series:
  "account_series (record_balances eh n t) k =
     (if k \<in> set (held_zs eh t)
      then Some (dd_get [] (account_series t) k @ [clamp (dd_get 0 (account_balance t) k)])
      else account_series t k)"
  by (simp add: record_balances_def fold_record_balance_series)

lemma record_balances_balance:
  "account_balance (record_balances eh n t) k =
     (if k \<in> set (held_zs eh t) then Some (clamp (dd_get 0 (account_balance t) k))
      else account_balance t k)"
  by (simp add: record_balances_def fold_record_balance_balance)

lemma receive_payoff_fields [simp]:
  "exchanges (receive_payoff eh zz p n t) = exchanges t"
  "trader_id (receive_payoff eh zz p n t) = trader_id t"
  "tick (receive_payoff eh zz p n t) = max n (tick t)"
  by (simp_all add: receive_payoff_def Let_def)

lemma receive_payoff_series:
  "account_series (receive_payoff eh zz p n t) k =
     (if tick t < n \<and> k \<in> set (held_zs eh t)
      then Some (dd_get [] (account_series t) k @ [clamp (dd_get 0 (account_balance t) k)])
      else account_series t k)"
  by (simp add: receive_payoff_def Let_def record_balances_series)

lemma receive_payoff_balance:
  "account_balance (receive_payoff eh zz p n t) k =
     (if k = zz
      then Some ((if tick t < n \<and> zz \<in> set (held_zs eh t)
                  then clamp (dd_get 0 (account_balance t) zz)
                  else dd_get 0 (account_balance t) zz) + p)
      else if tick t < n \<and> k \<in> set (held_zs eh t)
           then Some (clamp (dd_get 0 (account_balance t) k))
           else account_balance t k)"
  by (simp add: receive_payoff_def Let_def record_balances_balance dd_get_def)

lemma held_zs_receive_payoff [simp]:
  "held_zs eh' (receive_payoff eh zz p n t) = held_zs eh' t"
  by (simp add: held_zs_def)

lemma deliver_nth:
  "t < length (trader_heap w) \<Longrightarrow>
   trader_heap (deliver zz p n a w) ! t =
     (if a = t then receive_payoff (exchange_heap w) zz p n (trader_heap w ! t)
      else trader_heap w ! t)"
  by (simp add: deliver_def nth_list_update)

lemma fold_deliver_nth:
  "t < length (trader_heap w) \<Longrightarrow>
   trader_heap (fold (deliver zz p n) ts w) ! t =
     (receive_payoff (exchange_heap w) zz p n ^^ count_list ts t) (trader_heap w ! t)"
proof (induction ts arbitrary: w)
  case Nil
  then show ?case by simp
next
  case (Cons a ts)
  have len: "t < length (trader_heap (deliver zz p n a w))" using Cons.prems by simp
  show ?case
    using Cons.IH [OF len] Cons.prems
    by (simp add: deliver_nth funpow_swap1)
qed

lemma held_zs_cong:
  "(\<And>x. z (eh' ! x) = z ((eh :: exchange list) ! x)) \<Longrightarrow> held_zs eh' t = held_zs eh t"
  by (simp add: held_zs_def)

lemma receive_payoff_cong:
  assumes "\<And>x. z (eh' ! x) = z (eh ! x)"
  shows "receive_payoff eh' zz p n t = receive_payoff eh zz p n t"
proof -
  have "held_zs eh' t = held_zs eh t" using assms by (rule held_zs_cong)
  then show ?thesis by (simp add: receive_payoff_def record_balances_def)
qed

text \<open>What one call of tick does to one trader.\<close>

lemma Exchange_tick_trader:
  assumes "Exchange_tick r n (w, g) = Inr (w', g')" and "t < length (trader_heap w)"
  obtains p where
    "trader_heap w' ! t =
       (receive_payoff (exchange_heap w) (z (exchange_heap w ! r)) p n
          ^^ count_list (traders (exchange_heap w ! r)) t) (trader_heap w ! t)"
proof -
  from assms(1) obtain p e where tp: "tick_payoff (exchange_heap w ! r) g = Inr (p, e, g')"
    and w': "w' = fold (deliver (z e) p n) (traders e) (w\<lparr>exchange_heap := (exchange_heap w)[r := e]\<rparr>)"
    by (rule Exchange_tick_Inr)
  note e = tick_payoff_Inr [OF tp]
  have zs: "\<And>x. z ((exchange_heap w)[r := e] ! x) = z (exchange_heap w ! x)"
    by (rule nth_update_same_field) (rule e(1))
  have "trader_heap w' ! t =
       (receive_payoff ((exchange_heap w)[r := e]) (z e) p n ^^ count_list (traders e) t) (trader_heap w ! t)"
    using assms(2) by (simp add: w' fold_deliver_nth)
  also have "receive_payoff ((exchange_heap w)[r := e]) (z e) p n =
             receive_payoff (exchange_heap w) (z (exchange_heap w ! r)) p n"
    using receive_payoff_cong [of "(exchange_heap w)[r := e]" "exchange_heap w", OF zs] e(1)
    by (simp add: fun_eq_iff)
  finally show ?thesis using that e(2) by simp
qed

lemma funpow_invariant:
  assumes "\<And>x. P x \<Longrightarrow> P (f x)" and "P x"
  shows "P ((f ^^ k) x)"
  using assms by (induction k) simp_all

lemma Exchange_tick_invariant:
  assumes "Exchange_tick r n (w, g) = Inr (w', g')"
    and "\<And>zz p t. P t \<Longrightarrow> P (receive_payoff (exchange_heap w) zz p n t)"
    and "\<forall>t<length (trader_heap w). P (trader_heap w ! t)"
  shows "\<forall>t<length (trader_heap w'). P (trader_heap w' ! t)"
proof (intro allI impI)
  fix t assume "t < length (trader_heap w')"
  then have t: "t < length (trader_heap w)" using Exchange_tick_heap(6) [OF assms(1)] by simp
  from assms(1) t obtain p where
    "trader_heap w' ! t =
       (receive_payoff (exchange_heap w) (z (exchange_heap w ! r)) p n
          ^^ count_list (traders (exchange_heap w ! r)) t) (trader_heap w ! t)"
    by (rule Exchange_tick_trader)
  moreover have "P (trader_heap w ! t)" using assms(3) t by simp
  ultimately show "P (trader_heap w' ! t)"
    using funpow_invariant [of P "receive_payoff (exchange_heap w) (z (exchange_heap w ! r)) p n"]
      assms(2) by simp
qed

lemma tick_calls_invariant:
  assumes "tick_calls cs (w, g) = Inr (w', g')"
    and "\<And>(eh :: exchange list) zz p n t. (\<And>x. z (eh ! x) = z (exchange_heap w ! x)) \<Longrightarrow> P t \<Longrightarrow>
           P (receive_payoff eh zz p n t)"
    and "\<forall>t<length (trader_heap w). P (trader_heap w ! t)"
  shows "\<forall>t<length (trader_heap w'). P (trader_heap w' ! t)"
  using assms
proof (induction cs arbitrary: w g)
  case Nil
  then show ?case by simp
next
  case (Cons c cs)
  obtain r n where c: "c = (r, n)" by (cases c)
  from Cons.prems(1) obtain w1 g1 where t: "Exchange_tick r n (w, g) = Inr (w1, g1)"
    and rest: "tick_calls cs (w1, g1) = Inr (w', g')"
    by (auto simp: c tick_calls_Cons split: sum.splits)
  have zs: "\<And>x. z (exchange_heap w1 ! x) = z (exchange_heap w ! x)"
    by (rule Exchange_tick_heap(2) [OF t])
  have one: "\<forall>t<length (trader_heap w1). P (trader_heap w1 ! t)"
    by (rule Exchange_tick_invariant [OF t _ Cons.prems(3)]) (rule Cons.prems(2), simp)
  show ?case
  proof (rule Cons.IH [OF rest _ one])
    fix eh :: "exchange list" and zz p n t
    assume "\<And>x. z (eh ! x) = z (exchange_heap w1 ! x)" and "P t"
    then show "P (receive_payoff eh zz p n t)" using Cons.prems(2) zs by simp
  qed
qed

lemma add_bet_apply:
  "add_bet zf B e m k = (if k = zf e then Some (dd_get 0 m k + B) else m k)"
  by (simp add: add_bet_def)

lemma dd_get_add_bet:
  "dd_get 0 (add_bet zf B e m) k = (if k = zf e then dd_get 0 m k + B else dd_get 0 m k)"
  by (simp add: dd_get_def add_bet_apply)

lemma fold_bets:
  "fold (add_bet zf B) xs m k =
     (if k \<in> zf ` set xs
      then Some (dd_get 0 m k + real (count_list (map zf xs) k) * B)
      else m k)"
proof (induction xs arbitrary: m)
  case Nil
  then show ?case by simp
next
  case (Cons a xs)
  have "fold (add_bet zf B) (a # xs) m k = fold (add_bet zf B) xs (add_bet zf B a m) k"
    by simp
  also have "\<dots> = (if k \<in> zf ` set xs
      then Some (dd_get 0 (add_bet zf B a m) k + real (count_list (map zf xs) k) * B)
      else add_bet zf B a m k)"
    by (rule Cons.IH)
  also have "\<dots> = (if k \<in> zf ` set (a # xs)
      then Some (dd_get 0 m k + real (count_list (map zf (a # xs)) k) * B)
      else m k)"
    by (cases "k = zf a") (auto simp: dd_get_add_bet add_bet_apply distrib_right)
  finally show ?case .
qed

lemma initial_balance_eq:
  "initial_balance c eh exs k =
     (if k \<in> (\<lambda>e. z (eh ! e)) ` set exs
      then Some (real (count_list (map (\<lambda>e. z (eh ! e)) exs) k) * BET_SIZE c)
      else None)"
proof -
  have "initial_balance c eh exs = fold (add_bet (\<lambda>e. z (eh ! e)) (BET_SIZE c)) exs Map.empty"
    by (simp add: initial_balance_def add_bet_def [abs_def])
  then show ?thesis by (simp add: fold_bets dd_get_def)
qed

lemma BET_SIZE_nonneg [simp]: "0 \<le> BET_SIZE c"
  by (simp add: BET_SIZE_def)

lemma new_trader_series:
  "account_series (new_trader c eh tid exs) k =
     (if k \<in> set (held_zs eh (new_trader c eh tid exs))
      then Some [real (count_list (map (\<lambda>e. z (eh ! e)) exs) k) * BET_SIZE c]
      else None)"
  by (simp add: new_trader_def Let_def initial_balance_eq held_zs_def)

lemma new_trader_balance:
  "account_balance (new_trader c eh tid exs) k =
     (if k \<in> set (held_zs eh (new_trader c eh tid exs))
      then Some (real (count_list (map (\<lambda>e. z (eh ! e)) exs) k) * BET_SIZE c)
      else None)"
  by (simp add: new_trader_def Let_def initial_balance_eq held_zs_def)

lemma initial_world_Inr:
  assumes "initial_world c = Inr (exs, ts, w)"
  obtains es where "generate_exchanges c = Inr es" and "exs = [0 ..< length es]"
    and "generate_traders c exs \<lparr>exchange_heap = es, trader_heap = []\<rparr> = (ts, w)"
    and "BETS_PER_TRADER c \<noteq> 0"
  using assms
  by (auto simp: initial_world_def Let_def split: if_splits sum.splits prod.splits)

lemma set_exchange_sets:
  assumes "i < length (exchange_sets_of c exs)"
  shows "set (exchange_sets_of c exs ! i) \<subseteq> set exs"
proof -
  have "set (exchange_sets_of c exs ! i) \<subseteq> set (exchanges_perm (BETS_PER_TRADER c) exs)"
    using set_take_subset set_drop_subset by (fastforce simp: nth_exchange_sets [OF assms])
  also have "\<dots> \<subseteq> set exs" by (auto simp: exchanges_perm_blocks)
  finally show ?thesis .
qed

lemma for_each_append:
  "for_each f (xs @ ys) s =
     (case for_each f xs s of Inl err \<Rightarrow> Inl err | Inr s' \<Rightarrow> for_each f ys s')"
  by (induction xs arbitrary: s) (simp_all split: sum.splits)

lemma for_each_map_apply: "for_each f (map h xs) s = for_each (\<lambda>x. f (h x)) xs s"
  by (induction xs arbitrary: s) (simp_all split: sum.splits)

lemma for_each_map: "for_each f (map h xs) = for_each (\<lambda>x. f (h x)) xs"
  by (rule ext) (rule for_each_map_apply)

lemma for_each_concat:
  "for_each f (concat xss) s = for_each (for_each f) xss s"
  by (induction xss arbitrary: s) (simp_all add: for_each_append split: sum.splits)

lemma run_simulation_tick_calls:
  "run_simulation exs steps s = tick_calls (sim_calls exs steps) s"
  by (simp add: run_simulation_def tick_calls_def sim_calls_def for_each_concat for_each_map)

lemma series_nonneg_receive_payoff:
  "series_nonneg t \<Longrightarrow> series_nonneg (receive_payoff eh zz p n t)"
  unfolding series_nonneg_def
proof (intro allI impI ballI)
  fix k s x
  assume inv: "\<forall>k s. account_series t k = Some s \<longrightarrow> (\<forall>x\<in>set s. 0 \<le> x)"
    and s: "account_series (receive_payoff eh zz p n t) k = Some s" and x: "x \<in> set s"
  show "0 \<le> x"
  proof (cases "tick t < n \<and> k \<in> set (held_zs eh t)")
    case True
    then have s_eq: "s = dd_get [] (account_series t) k @ [clamp (dd_get 0 (account_balance t) k)]"
      using s by (simp add: receive_payoff_series)
    show ?thesis
    proof (cases "account_series t k")
      case None
      then show ?thesis using x by (simp add: s_eq dd_get_def)
    next
      case (Some old)
      then have "\<forall>y\<in>set old. 0 \<le> y" using inv by blast
      then show ?thesis using x Some by (auto simp: s_eq dd_get_def)
    qed
  next
    case False
    then have "account_series t k = Some s"
      using s by (auto simp: receive_payoff_series split: if_splits)
    then show ?thesis using inv x by blast
  qed
qed

lemma series_nonneg_new_trader: "series_nonneg (new_trader c eh tid exs)"
  unfolding series_nonneg_def
  by (auto simp: new_trader_series split: if_splits)

lemma initial_world_traders:
  assumes "initial_world c = Inr (exs, ts, w)" and "t < length (trader_heap w)"
  obtains es i xs where "generate_exchanges c = Inr es" and "exs = [0 ..< length es]"
    and "length (exchange_heap w) = length es"
    and "\<forall>x. z (exchange_heap w ! x) = z (es ! x)"
    and "trader_heap w ! t = new_trader c es i xs" and "set xs \<subseteq> set exs"
    and "xs = exchange_sets_of c exs ! t" and "t < length (exchange_sets_of c exs)"
proof -
  from assms(1) obtain es where g: "generate_exchanges c = Inr es" and exs: "exs = [0 ..< length es]"
    and gt: "generate_traders c exs \<lparr>exchange_heap = es, trader_heap = []\<rparr> = (ts, w)"
    by (rule initial_world_Inr)
  note r = generate_traders_result [OF gt]
  have th: "trader_heap w = map (\<lambda>i. new_trader c es i (exchange_sets_of c exs ! i))
             [0 ..< length (exchange_sets_of c exs)]"
    using r(2) by simp
  have t: "t < length (exchange_sets_of c exs)" using assms(2) by (simp add: th)
  have nt: "trader_heap w ! t = new_trader c es t (exchange_sets_of c exs ! t)"
    using t by (simp add: th del: upt_Suc)
  show ?thesis
  proof (rule that [OF g exs _ _ nt set_exchange_sets [OF t] refl t])
    show "length (exchange_heap w) = length es" using r(3) by simp
    show "\<forall>x. z (exchange_heap w ! x) = z (es ! x)" using r(4) by simp
  qed
qed

lemma initial_world_series_nonneg:
  assumes "initial_world c = Inr (exs, ts, w)"
  shows "\<forall>t<length (trader_heap w). series_nonneg (trader_heap w ! t)"
proof (intro allI impI)
  fix t assume "t < length (trader_heap w)"
  with assms obtain es i xs where "trader_heap w ! t = new_trader c es i xs"
    by (rule initial_world_traders)
  then show "series_nonneg (trader_heap w ! t)" by (simp add: series_nonneg_new_trader)
qed

lemma keys_ok_receive_payoff:
  assumes "keys_ok eh t"
  shows "keys_ok eh (receive_payoff eh zz p n t)"
proof -
  have "dom (account_series (receive_payoff eh zz p n t)) = dom (account_series t)"
    using assms unfolding keys_ok_def
    by (auto simp: receive_payoff_series dom_def split: if_splits)
  then show ?thesis using assms by (simp add: keys_ok_def)
qed

lemma receive_payoff_same_step:
  assumes "tick t = n"
  shows "account_series (receive_payoff eh zz p n t) = account_series t"
    and "tick (receive_payoff eh zz p n t) = n"
  using assms by (simp_all add: fun_eq_iff receive_payoff_series)

lemma receive_payoff_next_step:
  assumes "keys_ok eh t" and "tick t < n" and "series_len L t"
  shows "series_len (Suc L) (receive_payoff eh zz p n t)"
  unfolding series_len_def
proof (intro allI impI)
  fix k s assume s: "account_series (receive_payoff eh zz p n t) k = Some s"
  show "length s = Suc L"
  proof (cases "k \<in> set (held_zs eh t)")
    case True
    then have "k \<in> dom (account_series t)" using assms(1) by (simp add: keys_ok_def)
    then obtain old where old: "account_series t k = Some old" by blast
    then have "length old = L" using assms(3) by (simp add: series_len_def)
    moreover have "s = old @ [clamp (dd_get 0 (account_balance t) k)]"
      using s True assms(2) old by (simp add: receive_payoff_series dd_get_def)
    ultimately show ?thesis by simp
  next
    case False
    then have "k \<notin> dom (account_series t)" using assms(1) by (simp add: keys_ok_def)
    moreover have "account_series t k = Some s"
      using s False by (simp add: receive_payoff_series)
    ultimately show ?thesis by blast
  qed
qed

lemma receive_payoff_no_keys:
  assumes "keys_ok eh t" and "dom (account_series t) = {}"
  shows "dom (account_series (receive_payoff eh zz p n t)) = {}"
  using keys_ok_receive_payoff [OF assms(1), of zz p n] assms
  by (simp add: keys_ok_def)

lemma at_step_receive_payoff:
  assumes "keys_ok eh t" and "before_step n t"
  shows "at_step n (receive_payoff eh zz p (int n) t)"
proof (cases "dom (account_series t) = {}")
  case True
  then show ?thesis using receive_payoff_no_keys [OF assms(1)] by (simp add: at_step_def)
next
  case False
  from assms(2) consider "tick t = int n" "series_len (Suc n) t"
    | m where "n = Suc m" "tick t = int m" "series_len (Suc m) t"
    using False by (auto simp: before_step_def at_step_def)
  then show ?thesis
  proof cases
    case 1
    then show ?thesis
      by (simp add: at_step_def series_len_def receive_payoff_same_step [OF 1(1)])
  next
    case 2
    have lt: "tick t < int n" using 2 by simp
    have "series_len (Suc n) (receive_payoff eh zz p (int n) t)"
      using receive_payoff_next_step [OF assms(1) lt 2(3)] 2(1) by simp
    moreover have "tick (receive_payoff eh zz p (int n) t) = int n" using lt by simp
    ultimately show ?thesis by (simp add: at_step_def)
  qed
qed

lemma at_step_before_step: "at_step n t \<Longrightarrow> before_step n t"
  by (simp add: before_step_def)

lemma at_step_before_next: "at_step n t \<Longrightarrow> before_step (Suc n) t"
  by (simp add: before_step_def)

lemma funpow_establish:
  assumes "\<And>x. P x \<Longrightarrow> Q (f x)" and "\<And>x. Q x \<Longrightarrow> P x" and "P x" and "0 < k"
  shows "Q ((f ^^ k) x)"
proof -
  obtain j where k: "k = Suc j" using assms(4) by (cases k) simp_all
  have "P ((f ^^ j) x)"
    by (rule funpow_invariant [of P f]) (rule assms(2), rule assms(1), assumption, rule assms(3))
  then show ?thesis using assms(1) by (simp add: k)
qed

lemma settled_steady: "settled eh0 exs n w \<Longrightarrow> steady eh0 exs n w"
  by (simp add: settled_def steady_def at_step_before_step)

lemma settled_steady_next: "settled eh0 exs n w \<Longrightarrow> steady eh0 exs (Suc n) w"
  by (simp add: settled_def steady_def at_step_before_next)

lemma linked_receive_payoff:
  "linked eh0 exs t x \<Longrightarrow> linked eh0 exs t (receive_payoff eh0 zz p n x)"
  by (simp add: linked_def keys_ok_receive_payoff)

lemma Exchange_tick_step:
  assumes tk: "Exchange_tick r (int n) (w, g) = Inr (w', g')" and st: "steady eh0 exs n w"
  shows "steady eh0 exs n w'"
    and "\<forall>t<length (trader_heap w').
           (at_step n (trader_heap w ! t) \<longrightarrow> at_step n (trader_heap w' ! t))
         \<and> (t \<in> set (traders (eh0 ! r)) \<longrightarrow> at_step n (trader_heap w' ! t))"
proof -
  note h = Exchange_tick_heap [OF tk]
  have zs: "\<And>x. z (exchange_heap w ! x) = z (eh0 ! x)" using st by (simp add: steady_def)
  have ts: "\<And>x. traders (exchange_heap w ! x) = traders (eh0 ! x)" using st by (simp add: steady_def)
  define PP where "PP t x = (linked eh0 exs t x \<and> before_step n x)" for t x
  define QQ where "QQ t x = (linked eh0 exs t x \<and> at_step n x)" for t x
  have step: "QQ t (receive_payoff eh0 zz p (int n) x)" if "PP t x" for t x zz p
  proof -
    have l: "linked eh0 exs t x" and b: "before_step n x" using that by (simp_all add: PP_def)
    have k: "keys_ok eh0 x" using l by (simp add: linked_def)
    show ?thesis
      unfolding QQ_def
      by (intro conjI linked_receive_payoff [OF l] at_step_receive_payoff [OF k b])
  qed
  have weaken: "PP t x" if "QQ t x" for t x
    using that by (simp add: PP_def QQ_def at_step_before_step)
  have each: "PP t (trader_heap w' ! t)
            \<and> (at_step n (trader_heap w ! t) \<longrightarrow> at_step n (trader_heap w' ! t))
            \<and> (t \<in> set (traders (eh0 ! r)) \<longrightarrow> at_step n (trader_heap w' ! t))"
    if t: "t < length (trader_heap w)" for t
  proof -
    from tk t obtain p where
      "trader_heap w' ! t =
         (receive_payoff (exchange_heap w) (z (exchange_heap w ! r)) p (int n)
            ^^ count_list (traders (exchange_heap w ! r)) t) (trader_heap w ! t)"
      by (rule Exchange_tick_trader)
    moreover have "receive_payoff (exchange_heap w) (z (exchange_heap w ! r)) p (int n) =
        receive_payoff eh0 (z (eh0 ! r)) p (int n)"
      using receive_payoff_cong [of "exchange_heap w" eh0, OF zs] zs by (simp add: fun_eq_iff)
    ultimately have eq: "trader_heap w' ! t =
         (receive_payoff eh0 (z (eh0 ! r)) p (int n) ^^ count_list (traders (eh0 ! r)) t)
           (trader_heap w ! t)"
      by (simp add: ts)
    let ?f = "receive_payoff eh0 (z (eh0 ! r)) p (int n)"
    have P0: "PP t (trader_heap w ! t)" using st t by (simp add: steady_def PP_def)
    have a: "PP t (trader_heap w' ! t)"
      unfolding eq by (rule funpow_invariant [of "PP t" ?f]) (rule weaken, rule step, assumption, rule P0)
    have b: "at_step n (trader_heap w' ! t)" if "at_step n (trader_heap w ! t)"
    proof -
      have "QQ t (trader_heap w ! t)" using that P0 by (simp add: QQ_def PP_def)
      then have "QQ t (trader_heap w' ! t)"
        unfolding eq by (intro funpow_invariant [of "QQ t" ?f]) (rule step, rule weaken)
      then show ?thesis by (simp add: QQ_def)
    qed
    have c: "at_step n (trader_heap w' ! t)" if "t \<in> set (traders (eh0 ! r))"
    proof -
      have "count_list (traders (eh0 ! r)) t \<noteq> 0" using that by (simp add: count_list_0_iff)
      then have "0 < count_list (traders (eh0 ! r)) t" by simp
      then have "QQ t (trader_heap w' ! t)"
        unfolding eq by (intro funpow_establish [of "PP t" "QQ t" ?f]) (rule step, assumption, rule weaken, assumption, rule P0)
      then show ?thesis by (simp add: QQ_def)
    qed
    show ?thesis using a b c by blast
  qed
  show "steady eh0 exs n w'"
    unfolding steady_def using each h(2,3,6) zs ts by (simp add: PP_def)
  show "\<forall>t<length (trader_heap w').
           (at_step n (trader_heap w ! t) \<longrightarrow> at_step n (trader_heap w' ! t))
         \<and> (t \<in> set (traders (eh0 ! r)) \<longrightarrow> at_step n (trader_heap w' ! t))"
    using each h(6) by simp
qed

lemma step_loop:
  assumes "for_each (\<lambda>ex. Exchange_tick ex (int n)) rs (w, g) = Inr (w', g')"
    and "steady eh0 exs n w"
  shows "steady eh0 exs n w' \<and> length (trader_heap w') = length (trader_heap w)
       \<and> (\<forall>t<length (trader_heap w').
           (at_step n (trader_heap w ! t) \<longrightarrow> at_step n (trader_heap w' ! t))
         \<and> (\<forall>r\<in>set rs. t \<in> set (traders (eh0 ! r)) \<longrightarrow> at_step n (trader_heap w' ! t)))"
  using assms
proof (induction rs arbitrary: w g)
  case Nil
  then show ?case by simp
next
  case (Cons r rs)
  from Cons.prems(1) obtain w1 g1 where tk: "Exchange_tick r (int n) (w, g) = Inr (w1, g1)"
    and rest: "for_each (\<lambda>ex. Exchange_tick ex (int n)) rs (w1, g1) = Inr (w', g')"
    by (auto split: sum.splits)
  note one = Exchange_tick_step [OF tk Cons.prems(2)]
  note len1 = Exchange_tick_heap(6) [OF tk]
  note IH = Cons.IH [OF rest one(1)]
  show ?case using IH one(2) len1 by auto
qed

lemma step_settles:
  assumes "for_each (\<lambda>ex. Exchange_tick ex (int n)) exs (w, g) = Inr (w', g')"
    and "steady eh0 exs n w"
  shows "settled eh0 exs n w'" and "length (trader_heap w') = length (trader_heap w)"
proof -
  note l = step_loop [OF assms]
  have st: "steady eh0 exs n w'" using l by blast
  show "length (trader_heap w') = length (trader_heap w)" using l by blast
  have "at_step n (trader_heap w' ! t)" if t: "t < length (trader_heap w')" for t
  proof -
    have lk: "linked eh0 exs t (trader_heap w' ! t)" using st t by (simp add: steady_def)
    show ?thesis
    proof (cases "held_zs eh0 (trader_heap w' ! t) = []")
      case True
      then have "dom (account_series (trader_heap w' ! t)) = {}"
        using lk by (simp add: linked_def keys_ok_def)
      then show ?thesis by (simp add: at_step_def)
    next
      case False
      then obtain r where "r \<in> set exs" "t \<in> set (traders (eh0 ! r))"
        using lk by (auto simp: linked_def)
      then show ?thesis using l t by blast
    qed
  qed
  then show "settled eh0 exs n w'" using st by (simp add: settled_def steady_def)
qed

lemma run_settles:
  assumes "run_simulation exs (int S) (w, g) = Inr (w', g')" and "settled eh0 exs 0 w"
  shows "settled eh0 exs (S - 1) w' \<and> length (trader_heap w') = length (trader_heap w)"
  using assms(1)
proof (induction S arbitrary: w' g')
  case 0
  then show ?case using assms(2) by (simp add: run_simulation_def)
next
  case (Suc S)
  let ?step = "\<lambda>i. for_each (\<lambda>ex. Exchange_tick ex (int i)) exs"
  have n: "nat (int (Suc S)) = Suc S" by (rule nat_int)
  from Suc.prems have "for_each ?step ([0 ..< S] @ [S]) (w, g) = Inr (w', g')"
    unfolding run_simulation_def n by simp
  then obtain w1 g1 where first: "for_each ?step [0 ..< S] (w, g) = Inr (w1, g1)"
    and last: "?step S (w1, g1) = Inr (w', g')"
    by (auto simp: for_each_append split: sum.splits)
  have "run_simulation exs (int S) (w, g) = Inr (w1, g1)"
    using first by (simp add: run_simulation_def)
  note IH = Suc.IH [OF this]
  have "steady eh0 exs S w1"
  proof (cases S)
    case 0
    then show ?thesis using IH by (simp add: settled_steady)
  next
    case (Suc m)
    then show ?thesis using IH settled_steady_next [of eh0 exs m w1] by simp
  qed
  note s = step_settles [OF last this]
  show ?case using s IH by simp
qed

lemma initial_world_registered:
  assumes iw: "initial_world c = Inr (exs, ts, w)" and t: "t < length (trader_heap w)"
    and e: "e \<in> set (exchanges (trader_heap w ! t))"
  shows "e \<in> set exs" and "t \<in> set (traders (exchange_heap w ! e))"
proof -
  from iw obtain es where g: "generate_exchanges c = Inr es" and exs: "exs = [0 ..< length es]"
    and gt: "generate_traders c exs \<lparr>exchange_heap = es, trader_heap = []\<rparr> = (ts, w)"
    by (rule initial_world_Inr)
  note r = generate_traders_result [OF gt]
  let ?sets = "exchange_sets_of c exs"
  have th: "trader_heap w = map (\<lambda>i. new_trader c es i (?sets ! i)) [0 ..< length ?sets]"
    using r(2) by simp
  have tn: "t < length ?sets" using t by (simp add: th)
  have nt: "trader_heap w ! t = new_trader c es t (?sets ! t)"
    using tn by (simp add: th del: upt_Suc)
  have es: "e \<in> set (?sets ! t)" using e by (simp add: nt)
  show ex: "e \<in> set exs" using es set_exchange_sets [OF tn] by blast
  then have el: "e < length es" by (simp add: exs)
  have "traders (exchange_heap w ! e) = traders (es ! e) @
          concat (map (\<lambda>k. replicate (count_list (?sets ! k) e) (0 + k)) [0 ..< length ?sets])"
    using r(7) [of e] el by simp
  moreover have "count_list (?sets ! t) e \<noteq> 0" using es by (simp add: count_list_0_iff)
  then have "t \<in> set (replicate (count_list (?sets ! t) e) (0 + t))" by simp
  then have "t \<in> set (concat (map (\<lambda>k. replicate (count_list (?sets ! k) e) (0 + k)) [0 ..< length ?sets]))"
    using tn by (auto simp del: upt_Suc replicate_eq_replicate)
  ultimately show "t \<in> set (traders (exchange_heap w ! e))" by simp
qed

lemma keys_ok_new_trader: "keys_ok eh (new_trader c eh tid xs)"
  by (auto simp: keys_ok_def new_trader_series dom_def split: if_splits)

lemma keys_ok_cong:
  "(\<And>x. z (eh' ! x) = z ((eh :: exchange list) ! x)) \<Longrightarrow> keys_ok eh' t = keys_ok eh t"
  using held_zs_cong [of eh' eh t] by (simp add: keys_ok_def)

lemma at_step_new_trader: "at_step 0 (new_trader c eh tid xs)"
  by (auto simp: at_step_def series_len_def new_trader_series split: if_splits)

lemma initial_world_settled:
  assumes iw: "initial_world c = Inr (exs, ts, w)"
  shows "settled (exchange_heap w) exs 0 w"
  unfolding settled_def
proof (intro conjI allI impI)
  fix t assume t: "t < length (trader_heap w)"
  from iw t obtain es i xs where "generate_exchanges c = Inr es" and "exs = [0 ..< length es]"
    and "length (exchange_heap w) = length es"
    and zs': "\<forall>x. z (exchange_heap w ! x) = z (es ! x)"
    and nt: "trader_heap w ! t = new_trader c es i xs" and "set xs \<subseteq> set exs"
    and "xs = exchange_sets_of c exs ! t" and "t < length (exchange_sets_of c exs)"
    by (rule initial_world_traders)
  have zs: "\<And>x. z (exchange_heap w ! x) = z (es ! x)" using zs' by simp
  have k: "keys_ok (exchange_heap w) (trader_heap w ! t)"
    using keys_ok_cong [of "exchange_heap w" es, OF zs] keys_ok_new_trader by (simp add: nt)
  have "held_zs (exchange_heap w) (trader_heap w ! t) = []
        \<or> (\<exists>r\<in>set exs. t \<in> set (traders (exchange_heap w ! r)))"
  proof (cases "exchanges (trader_heap w ! t)")
    case Nil
    then show ?thesis by (simp add: held_zs_def)
  next
    case (Cons e rest)
    then have "e \<in> set (exchanges (trader_heap w ! t))" by simp
    then show ?thesis using initial_world_registered [OF iw t] by blast
  qed
  then show "linked (exchange_heap w) exs t (trader_heap w ! t)" using k by (simp add: linked_def)
  show "at_step 0 (trader_heap w ! t)" by (simp add: nt at_step_new_trader)
qed simp_all

lemma tick_payoff_total:
  assumes "z e \<noteq> 0" and "z e ^ RUIN_DECAY \<le> 2 ^ 63"
  shows "\<exists>p e' g'. tick_payoff e g = Inr (p, e', g')"
proof -
  have "0 < z e ^ RUIN_DECAY" using assms(1) by (simp add: RUIN_DECAY_def)
  moreover have "\<not> (2 :: int) ^ 63 < z e ^ RUIN_DECAY" using assms(2) by simp
  ultimately show ?thesis
    by (simp add: tick_payoff_def randint_def normal_def RETURN_STD_def Let_def)
qed

lemma Exchange_tick_total:
  assumes "z (exchange_heap w ! r) \<noteq> 0" and "z (exchange_heap w ! r) ^ RUIN_DECAY \<le> 2 ^ 63"
  shows "\<exists>w' g'. Exchange_tick r n (w, g) = Inr (w', g')"
proof -
  from tick_payoff_total [OF assms, of g] obtain p e' g'
    where "tick_payoff (exchange_heap w ! r) g = Inr (p, e', g')" by blast
  then show ?thesis by (simp add: Exchange_tick_def)
qed

lemma tick_calls_total:
  assumes "\<forall>c\<in>set cs. z (exchange_heap w ! fst c) \<noteq> 0
             \<and> z (exchange_heap w ! fst c) ^ RUIN_DECAY \<le> 2 ^ 63"
  shows "\<exists>w' g'. tick_calls cs (w, g) = Inr (w', g')"
  using assms
proof (induction cs arbitrary: w g)
  case Nil
  then show ?case by simp
next
  case (Cons c cs)
  obtain r n where c: "c = (r, n)" by (cases c)
  have "z (exchange_heap w ! r) \<noteq> 0" and "z (exchange_heap w ! r) ^ RUIN_DECAY \<le> 2 ^ 63"
    using Cons.prems by (simp_all add: c)
  from Exchange_tick_total [OF this, of n g] obtain w1 g1
    where t: "Exchange_tick r n (w, g) = Inr (w1, g1)" by blast
  have "\<forall>c\<in>set cs. z (exchange_heap w1 ! fst c) \<noteq> 0
          \<and> z (exchange_heap w1 ! fst c) ^ RUIN_DECAY \<le> 2 ^ 63"
    using Cons.prems by (simp add: Exchange_tick_heap(2) [OF t])
  from Cons.IH [OF this, of g1] show ?case by (simp add: c tick_calls_Cons t)
qed

lemma fst_sim_calls: "c \<in> set (sim_calls exs steps) \<Longrightarrow> fst c \<in> set exs"
  by (auto simp: sim_calls_def)

lemma initial_world_z:
  assumes iw: "initial_world c = Inr (exs, ts, w)" and r: "r \<in> set exs"
  shows "z (exchange_heap w ! r) = int r + MAX_RISK c"
proof -
  from iw obtain es where g: "generate_exchanges c = Inr es" and exs: "exs = [0 ..< length es]"
    and gt: "generate_traders c exs \<lparr>exchange_heap = es, trader_heap = []\<rparr> = (ts, w)"
    by (rule initial_world_Inr)
  have rl: "r < length es" using r by (simp add: exs)
  have "z (exchange_heap w ! r) = z (es ! r)" using generate_traders_result(4) [OF gt] by simp
  then show ?thesis using generated_exchange(1) [OF g rl] by simp
qed

lemma initial_world_z_bound:
  assumes iw: "initial_world c = Inr (exs, ts, w)" and r: "r \<in> set exs"
  shows "z (exchange_heap w ! r) \<le> MAX_RISK c + int (NUM_EXCHANGES c) - 1"
proof -
  from iw obtain es where g: "generate_exchanges c = Inr es" and exs: "exs = [0 ..< length es]"
    by (rule initial_world_Inr)
  have "r < NUM_EXCHANGES c" using r generate_exchanges_Inr(1) [OF g] by (simp add: exs)
  then show ?thesis using initial_world_z [OF iw r] by simp
qed

lemma run_simulation_total:
  assumes iw: "initial_world c = Inr (exs, ts, w)" and "0 < MAX_RISK c"
    and "(MAX_RISK c + int (NUM_EXCHANGES c) - 1) ^ RUIN_DECAY \<le> 2 ^ 63"
  shows "\<exists>w' g'. run_simulation exs steps (w, g) = Inr (w', g')"
  unfolding run_simulation_tick_calls
proof (rule tick_calls_total, rule ballI)
  fix x assume "x \<in> set (sim_calls exs steps)"
  then have x: "fst x \<in> set exs" by (rule fst_sim_calls)
  have zx: "z (exchange_heap w ! fst x) = int (fst x) + MAX_RISK c" by (rule initial_world_z [OF iw x])
  have pos: "0 \<le> z (exchange_heap w ! fst x)" using zx assms(2) by simp
  have "z (exchange_heap w ! fst x) ^ RUIN_DECAY \<le> (MAX_RISK c + int (NUM_EXCHANGES c) - 1) ^ RUIN_DECAY"
    by (rule power_mono [OF initial_world_z_bound [OF iw x] pos])
  then have "z (exchange_heap w ! fst x) ^ RUIN_DECAY \<le> 2 ^ 63" using assms(3) by simp
  moreover have "z (exchange_heap w ! fst x) \<noteq> 0" using zx assms(2) by simp
  ultimately show "z (exchange_heap w ! fst x) \<noteq> 0
      \<and> z (exchange_heap w ! fst x) ^ RUIN_DECAY \<le> 2 ^ 63" by simp
qed

lemma same_lengths_series_len: "same_lengths t = (\<exists>L. series_len L t)"
  unfolding same_lengths_def series_len_def
proof
  assume a: "\<forall>k s k' s'. account_series t k = Some s \<longrightarrow> account_series t k' = Some s' \<longrightarrow>
               length s = length s'"
  show "\<exists>L. \<forall>k s. account_series t k = Some s \<longrightarrow> length s = L"
  proof (cases "\<exists>k s. account_series t k = Some s")
    case True
    then obtain k0 s0 where "account_series t k0 = Some s0" by blast
    then have "\<forall>k s. account_series t k = Some s \<longrightarrow> length s = length s0" using a by blast
    then show ?thesis by blast
  next
    case False
    then show ?thesis by simp
  qed
next
  assume "\<exists>L. \<forall>k s. account_series t k = Some s \<longrightarrow> length s = L"
  then show "\<forall>k s k' s'. account_series t k = Some s \<longrightarrow> account_series t k' = Some s' \<longrightarrow>
               length s = length s'"
    by metis
qed

lemma series_len_receive_payoff:
  assumes "keys_ok eh t" and "series_len L t"
  shows "\<exists>L'. series_len L' (receive_payoff eh zz p n t)"
proof (cases "tick t < n")
  case True
  then show ?thesis using receive_payoff_next_step [OF assms(1) True assms(2)] by blast
next
  case False
  then have "account_series (receive_payoff eh zz p n t) = account_series t"
    by (simp add: fun_eq_iff receive_payoff_series)
  then show ?thesis using assms(2) by (auto simp: series_len_def)
qed

lemma tick_calls_same_lengths:
  assumes iw: "initial_world c = Inr (exs, ts, w)" and tc: "tick_calls cs (w, g) = Inr (w', g')"
  shows "\<forall>t<length (trader_heap w'). same_lengths (trader_heap w' ! t)"
proof -
  define P where "P x = (keys_ok (exchange_heap w) x \<and> same_lengths x)" for x
  have init: "\<forall>t<length (trader_heap w). P (trader_heap w ! t)"
  proof (intro allI impI)
    fix t assume t: "t < length (trader_heap w)"
    have s: "settled (exchange_heap w) exs 0 w" by (rule initial_world_settled [OF iw])
    then have k: "keys_ok (exchange_heap w) (trader_heap w ! t)"
      and a: "at_step 0 (trader_heap w ! t)"
      using t by (simp_all add: settled_def linked_def)
    have "\<exists>L. series_len L (trader_heap w ! t)"
      using a by (auto simp: at_step_def series_len_def dom_def)
    then show "P (trader_heap w ! t)" using k by (simp add: P_def same_lengths_series_len)
  qed
  have keep: "P (receive_payoff eh zz p n x)"
    if zs: "\<And>y. z (eh ! y) = z (exchange_heap w ! y)" and x: "P x" for eh :: "exchange list" and zz p n x
  proof -
    have e: "receive_payoff eh zz p n x = receive_payoff (exchange_heap w) zz p n x"
      by (rule receive_payoff_cong [OF zs])
    have k: "keys_ok (exchange_heap w) x" using x by (simp add: P_def)
    from x obtain L where "series_len L x" by (auto simp: P_def same_lengths_series_len)
    then have "\<exists>L'. series_len L' (receive_payoff (exchange_heap w) zz p n x)"
      by (rule series_len_receive_payoff [OF k])
    then show ?thesis
      by (simp add: P_def e keys_ok_receive_payoff [OF k] same_lengths_series_len)
  qed
  have "\<forall>t<length (trader_heap w'). P (trader_heap w' ! t)"
    by (rule tick_calls_invariant [OF tc _ init]) (rule keep)
  then show ?thesis by (simp add: P_def)
qed

lemma sets_small: "exchange_sets_of small_config [0, 1] = [[0, 0], [0, 1], [1, 1]]"
  by (simp add: exchange_sets_of_def contiguous_sublists_size_n_def exchanges_perm_blocks
      small_config_def numeral_2_eq_2 upt_rec)

lemma upt3: "[0 ..< length [[0, 0], [0, 1], [1, Suc 0]]] = [0, 1, 2]"
  by (simp add: upt_rec numeral_nat)

lemma gen_small:
  "generate_traders small_config [0, 1] small_world =
     fold (add_trader small_config [[0, 0], [0, 1], [1, 1]]) [0, 1, 2] ([], small_world)"
  using sets_small upt3
  by (simp add: generate_traders_def exchange_sets_of_def Let_def del: upt_Suc)

lemma map_option_upd:
  "(\<lambda>k. map_option f ((m(a \<mapsto> b)) k)) = (\<lambda>k. map_option f (m k))(a \<mapsto> f b)"
  by (rule ext) simp

lemma small_initial_eq:
  "small_initial =
    \<lparr>exchange_heap =
       [\<lparr>z = 30, traders = [0, 0, 1], is_dead = False, premium = MAX_PREMIUM\<rparr>,
        \<lparr>z = 31, traders = [1, 2, 2], is_dead = False, premium = 0\<rparr>],
     trader_heap =
       [\<lparr>trader_id = 0, exchanges = [0, 0], account_balance = [30 \<mapsto> 1],
         account_series = [30 \<mapsto> [1]], tick = 0\<rparr>,
        \<lparr>trader_id = 1, exchanges = [0, 1], account_balance = [30 \<mapsto> 1 / 2, 31 \<mapsto> 1 / 2],
         account_series = [30 \<mapsto> [1 / 2], 31 \<mapsto> [1 / 2]], tick = 0\<rparr>,
        \<lparr>trader_id = 2, exchanges = [1, 1], account_balance = [31 \<mapsto> 1],
         account_series = [31 \<mapsto> [1]], tick = 0\<rparr>]\<rparr>"
  unfolding small_initial_def gen_small
  by (simp add: add_trader_def Trader_init_def register_at_def register_trader_def small_world_def
      small_heap_def Let_def new_trader_def initial_balance_def BET_SIZE_def dd_get_def
      small_config_def fun_eq_iff)

lemma upt_nat3: "[0 ..< nat 3] = [0, 1, 2]"
  by (simp add: upt_rec numeral_nat)

lemma lucky_run:
  "map_sum id (\<lambda>(w', g'). account_series (trader_heap w' ! 0) 30)
     (run_simulation [0, 1] 3 (small_initial, lucky_rng)) =
   Inr (Some [1, 1400010018 / 10000, 1200010018 / 10000])"
  unfolding run_simulation_def upt_nat3 small_initial_eq
  by (simp add: Exchange_tick_def tick_payoff_def randint_def normal_def deliver_def
      receive_payoff_def record_balances_def held_zs_def record_balance_def dd_get_def Let_def
      lucky_rng_def RUIN_DECAY_def NEGATIVE_INFINITY_def RETURN_MEAN_def RETURN_STD_def
      MAX_PREMIUM_def)

lemma generate_traders_small:
  "generate_traders small_config [0, 1] small_world = ([0, 1, 2], small_initial)"
proof -
  obtain ts w where g: "generate_traders small_config [0, 1] small_world = (ts, w)"
    by (cases "generate_traders small_config [0, 1] small_world")
  have "ts = [0 ..< length (exchange_sets_of small_config [0, 1])]"
    using generate_traders_result(1) [OF g] by (simp add: small_world_def)
  then have "ts = [0, 1, 2]"
    unfolding sets_small by (simp add: upt_rec numeral_nat)
  moreover have "w = small_initial" using g by (simp add: small_initial_def)
  ultimately show ?thesis using g by simp
qed

lemma initial_world_small:
  "initial_world small_config = Inr ([0, 1], [0, 1, 2], small_initial)"
proof -
  have "[0 ..< length small_heap] = [0, 1]" by (simp add: small_heap_def upt_rec)
  moreover have "BETS_PER_TRADER small_config \<noteq> 0" by (simp add: small_config_def)
  ultimately show ?thesis
    using generate_traders_small
    by (simp add: initial_world_def generate_exchanges_small small_world_def Let_def)
qed



lemma tick_funpow_receive_payoff:
  "0 < k \<Longrightarrow> tick ((receive_payoff eh zz p n ^^ k) x) = max n (tick x)"
proof (induction k)
  case 0
  then show ?case by simp
next
  case (Suc j)
  show ?case
  proof (cases "j = 0")
    case True
    then show ?thesis by simp
  next
    case False
    then have "tick ((receive_payoff eh zz p n ^^ j) x) = max n (tick x)" using Suc.IH by simp
    then show ?thesis by simp
  qed
qed

lemma funpow_receive_payoff_balance:
  "0 < k \<Longrightarrow>
   dd_get 0 (account_balance ((receive_payoff eh zz p n ^^ k) x)) zz =
     (if tick x < n \<and> zz \<in> set (held_zs eh x) then clamp (dd_get 0 (account_balance x) zz)
      else dd_get 0 (account_balance x) zz) + real k * p"
proof (induction k)
  case 0
  then show ?case by simp
next
  case (Suc j)
  show ?case
  proof (cases "j = 0")
    case True
    then show ?thesis by (simp add: receive_payoff_balance dd_get_def)
  next
    case False
    then have j: "0 < j" by simp
    have "\<not> tick ((receive_payoff eh zz p n ^^ j) x) < n"
      by (simp add: tick_funpow_receive_payoff [OF j])
    then have "dd_get 0 (account_balance ((receive_payoff eh zz p n ^^ Suc j) x)) zz =
        dd_get 0 (account_balance ((receive_payoff eh zz p n ^^ j) x)) zz + p"
      by (simp add: receive_payoff_balance dd_get_def)
    then show ?thesis using Suc.IH [OF j] by (simp add: algebra_simps)
  qed
qed

lemma funpow_receive_payoff_series:
  "account_series ((receive_payoff eh zz p n ^^ k) x) key =
     (if 0 < k \<and> tick x < n \<and> key \<in> set (held_zs eh x)
      then Some (dd_get [] (account_series x) key @ [clamp (dd_get 0 (account_balance x) key)])
      else account_series x key)"
proof (induction k)
  case 0
  then show ?case by simp
next
  case (Suc j)
  show ?case
  proof (cases "j = 0")
    case True
    then show ?thesis by (simp add: receive_payoff_series)
  next
    case False
    then have j: "0 < j" by simp
    have "\<not> tick ((receive_payoff eh zz p n ^^ j) x) < n"
      by (simp add: tick_funpow_receive_payoff [OF j])
    then have "account_series ((receive_payoff eh zz p n ^^ Suc j) x) key =
        account_series ((receive_payoff eh zz p n ^^ j) x) key"
      by (simp add: receive_payoff_series)
    then show ?thesis using Suc.IH j by simp
  qed
qed

text \<open>One trader under a sequence of ticks.\<close>

lemma tick_calls_trader_invariant:
  assumes "tick_calls cs (w, g) = Inr (w', g')" and "t < length (trader_heap w)"
    and "\<And>(eh :: exchange list) zz p n x. (\<And>y. z (eh ! y) = z (exchange_heap w ! y)) \<Longrightarrow>
           n \<in> snd ` set cs \<Longrightarrow> P x \<Longrightarrow> P (receive_payoff eh zz p n x)"
    and "P (trader_heap w ! t)"
  shows "P (trader_heap w' ! t)"
  using assms
proof (induction cs arbitrary: w g)
  case Nil
  then show ?case by simp
next
  case (Cons c cs)
  obtain r n where c: "c = (r, n)" by (cases c)
  from Cons.prems(1) obtain w1 g1 where tk: "Exchange_tick r n (w, g) = Inr (w1, g1)"
    and rest: "tick_calls cs (w1, g1) = Inr (w', g')"
    by (auto simp: c tick_calls_Cons split: sum.splits)
  note h = Exchange_tick_heap [OF tk]
  from tk Cons.prems(2) obtain p where
    e: "trader_heap w1 ! t =
       (receive_payoff (exchange_heap w) (z (exchange_heap w ! r)) p n
          ^^ count_list (traders (exchange_heap w ! r)) t) (trader_heap w ! t)"
    by (rule Exchange_tick_trader)
  have nin: "n \<in> snd ` set (c # cs)" by (simp add: c)
  have P1: "P (trader_heap w1 ! t)"
    unfolding e
  proof (rule funpow_invariant [where P = P])
    fix x assume "P x"
    show "P (receive_payoff (exchange_heap w) (z (exchange_heap w ! r)) p n x)"
      by (rule Cons.prems(3) [OF _ nin \<open>P x\<close>]) simp
  qed (rule Cons.prems(4))
  have t1: "t < length (trader_heap w1)" using Cons.prems(2) h(6) by simp
  show ?case
  proof (rule Cons.IH [OF rest t1 _ P1])
    fix eh :: "exchange list" and zz and q :: real and m x
    assume "\<And>y. z (eh ! y) = z (exchange_heap w1 ! y)" and "m \<in> snd ` set cs" and "P x"
    then show "P (receive_payoff eh zz q m x)" using Cons.prems(3) [of eh m x zz q] h(2) by simp
  qed
qed






lemma exchanges_funpow_receive_payoff [simp]:
  "exchanges ((receive_payoff eh zz p n ^^ k) x) = exchanges x"
  by (induction k) simp_all


lemma pending_series:
  assumes "pending zz s b x"
  shows "\<exists>more. dd_get [] (account_series x) zz = s @ more \<and> (more \<noteq> [] \<longrightarrow> hd more = clamp b)"
  using assms unfolding pending_def by auto

lemma clamp_zero_iff: "clamp x = 0 \<longleftrightarrow> x \<le> 0"
  by (simp add: clamp_def)

lemma Exchange_tick_dead:
  assumes "is_dead (exchange_heap w ! r)"
  shows "Exchange_tick r n (w, g) =
           Inr (fold (deliver (z (exchange_heap w ! r)) 0 n) (traders (exchange_heap w ! r)) w, g)"
proof -
  have "w\<lparr>exchange_heap := (exchange_heap w)[r := exchange_heap w ! r]\<rparr> = w" by simp
  then show ?thesis by (simp add: Exchange_tick_def tick_payoff_dead [OF assms])
qed

lemma upt_nat1: "[0 ..< nat 1] = [0]"
  by simp

lemma upt_nat2: "[0 ..< nat 2] = [0, 1]"
  by (simp add: upt_rec numeral_nat)

lemma ruin_run_1:
  "map_sum id (\<lambda>(w', g'). trader_heap w' ! 0)
     (run_simulation [0, 1] 1 (small_initial, ruin_rng)) = Inr ruined_trader"
  unfolding run_simulation_def upt_nat1 small_initial_eq
  by (simp add: Exchange_tick_def tick_payoff_def randint_def normal_def deliver_def
      receive_payoff_def record_balances_def held_zs_def record_balance_def dd_get_def Let_def
      ruin_rng_def RUIN_DECAY_def NEGATIVE_INFINITY_def RETURN_MEAN_def RETURN_STD_def
      MAX_PREMIUM_def ruined_trader_def)

lemma ruin_run_2:
  "map_sum id (\<lambda>(w', g'). account_series (trader_heap w' ! 0) 30)
     (run_simulation [0, 1] 2 (small_initial, ruin_rng)) = Inr (Some [1, 0])"
  unfolding run_simulation_def upt_nat2 small_initial_eq
  by (simp add: Exchange_tick_def tick_payoff_def randint_def normal_def deliver_def
      receive_payoff_def record_balances_def held_zs_def record_balance_def dd_get_def Let_def
      ruin_rng_def RUIN_DECAY_def NEGATIVE_INFINITY_def RETURN_MEAN_def RETURN_STD_def
      MAX_PREMIUM_def)

lemma Exchange_tick_series:
  assumes "Exchange_tick r n (w, g) = Inr (w', g')" and "t < length (trader_heap w)"
  shows "account_series (trader_heap w' ! t) k =
     (if t \<in> set (traders (exchange_heap w ! r)) \<and> tick (trader_heap w ! t) < n
         \<and> k \<in> set (held_zs (exchange_heap w) (trader_heap w ! t))
      then Some (dd_get [] (account_series (trader_heap w ! t)) k
                 @ [clamp (dd_get 0 (account_balance (trader_heap w ! t)) k)])
      else account_series (trader_heap w ! t) k)"
proof -
  from assms obtain p where
    e: "trader_heap w' ! t =
       (receive_payoff (exchange_heap w) (z (exchange_heap w ! r)) p n
          ^^ count_list (traders (exchange_heap w ! r)) t) (trader_heap w ! t)"
    by (rule Exchange_tick_trader)
  have "(0 < count_list (traders (exchange_heap w ! r)) t) = (t \<in> set (traders (exchange_heap w ! r)))"
    using count_list_0_iff [of "traders (exchange_heap w ! r)" t] by auto
  then show ?thesis unfolding e funpow_receive_payoff_series by simp
qed

lemma step_tick_calls:
  "for_each (\<lambda>ex. Exchange_tick ex n) exs s = tick_calls (map (\<lambda>ex. (ex, n)) exs) s"
  by (simp add: tick_calls_def for_each_map)

lemma held_zs_exchanges: "exchanges x = exchanges y \<Longrightarrow> held_zs eh x = held_zs eh y"
  by (simp add: held_zs_def)

text \<open>One step of the loop, for a trader that has seen the step before: its first notification
  appends the clamped balances it had when the step began.\<close>

lemma step_records:
  assumes step: "for_each (\<lambda>ex. Exchange_tick ex (int (Suc m))) exs (w, g) = Inr (w', g')"
    and st: "settled eh0 exs m w"
    and t: "t < length (trader_heap w)"
    and s: "account_series (trader_heap w' ! t) k = Some s"
  shows "\<exists>s'. account_series (trader_heap w ! t) k = Some s'
            \<and> s = s' @ [clamp (dd_get 0 (account_balance (trader_heap w ! t)) k)]"
proof -
  let ?x0 = "trader_heap w ! t" and ?x' = "trader_heap w' ! t"
  let ?cs = "map (\<lambda>ex. (ex, int (Suc m))) exs"
  have tc: "tick_calls ?cs (w, g) = Inr (w', g')" using step by (simp add: step_tick_calls)
  have zs: "\<And>y. z (exchange_heap w ! y) = z (eh0 ! y)" using st by (simp add: settled_def)
  note after = step_settles [OF step settled_steady_next [OF st]]
  have t': "t < length (trader_heap w')" using t after(2) by simp
  have ex: "exchanges ?x' = exchanges ?x0"
    by (rule tick_calls_trader_invariant [OF tc t, where P = "\<lambda>x. exchanges x = exchanges ?x0"])
       simp_all
  have k0: "keys_ok eh0 ?x0" and a0: "at_step m ?x0"
    using st t by (simp_all add: settled_def linked_def)
  have k': "keys_ok eh0 ?x'" and a': "at_step (Suc m) ?x'"
    using after(1) t' by (simp_all add: settled_def linked_def)
  have kin': "k \<in> set (held_zs eh0 ?x')" using s k' by (auto simp: keys_ok_def)
  then have kin: "k \<in> set (held_zs eh0 ?x0)" using held_zs_exchanges [OF ex] by simp
  then obtain s' where s': "account_series ?x0 k = Some s'" using k0 by (auto simp: keys_ok_def)
  then have tk0: "tick ?x0 = int m" using a0 by (auto simp: at_step_def)
  have tk': "tick ?x' = int (Suc m)" using a' s by (auto simp: at_step_def)
  define Q where "Q x = (exchanges x = exchanges ?x0
      \<and> ((tick x = int m \<and> account_series x = account_series ?x0
             \<and> account_balance x = account_balance ?x0)
          \<or> (tick x = int (Suc m)
             \<and> (\<forall>k\<in>set (held_zs eh0 ?x0). account_series x k =
                   Some (dd_get [] (account_series ?x0) k
                         @ [clamp (dd_get 0 (account_balance ?x0) k)])))))" for x :: trader
  have Q0: "Q ?x0" using tk0 by (simp add: Q_def)
  have keep: "Q (receive_payoff eh zz p n x)"
    if e: "\<And>y. z (eh ! y) = z (exchange_heap w ! y)" and n: "n \<in> snd ` set ?cs" and q: "Q x"
    for eh :: "exchange list" and zz p n x
  proof -
    have n': "n = int (Suc m)" using n by auto
    have "held_zs eh x = held_zs eh0 x" by (rule held_zs_cong) (simp add: e zs)
    also have "\<dots> = held_zs eh0 ?x0" by (rule held_zs_exchanges) (use q in \<open>simp add: Q_def\<close>)
    finally have h: "held_zs eh x = held_zs eh0 ?x0" .
    have exq: "exchanges x = exchanges ?x0" using q by (simp add: Q_def)
    from q consider
        (fresh) "tick x = int m" "account_series x = account_series ?x0"
          "account_balance x = account_balance ?x0"
      | (seen) "tick x = int (Suc m)"
          "\<forall>k\<in>set (held_zs eh0 ?x0). account_series x k =
              Some (dd_get [] (account_series ?x0) k @ [clamp (dd_get 0 (account_balance ?x0) k)])"
      unfolding Q_def by blast
    then show ?thesis
    proof cases
      case fresh
      have "tick (receive_payoff eh zz p (int (Suc m)) x) = int (Suc m)"
        using fresh(1) by simp
      moreover have "\<forall>k\<in>set (held_zs eh0 ?x0).
          account_series (receive_payoff eh zz p (int (Suc m)) x) k =
            Some (dd_get [] (account_series ?x0) k @ [clamp (dd_get 0 (account_balance ?x0) k)])"
        using fresh by (simp add: receive_payoff_series h)
      ultimately show ?thesis unfolding Q_def n' using exq by simp
    next
      case seen
      have "tick (receive_payoff eh zz p (int (Suc m)) x) = int (Suc m)"
        using seen(1) by simp
      moreover have "account_series (receive_payoff eh zz p (int (Suc m)) x) k = account_series x k" for k
        using seen(1) by (simp add: receive_payoff_series)
      ultimately show ?thesis unfolding Q_def n' using exq seen(2) by simp
    qed
  qed
  have "Q ?x'"
    by (rule tick_calls_trader_invariant [OF tc t, where P = Q]) (rule keep, assumption+, rule Q0)
  then have "account_series ?x' k =
      Some (dd_get [] (account_series ?x0) k @ [clamp (dd_get 0 (account_balance ?x0) k)])"
    using tk' kin by (auto simp: Q_def)
  then show ?thesis using s s' by (simp add: dd_get_def)
qed

lemma run_simulation_Suc:
  assumes "run_simulation exs (int (Suc m)) (w, g) = Inr (w'', g'')"
  obtains w' g' where "run_simulation exs (int m) (w, g) = Inr (w', g')"
    and "for_each (\<lambda>ex. Exchange_tick ex (int m)) exs (w', g') = Inr (w'', g'')"
proof -
  let ?step = "\<lambda>i. for_each (\<lambda>ex. Exchange_tick ex (int i)) exs"
  have n: "nat (int (Suc m)) = Suc m" by (rule nat_int)
  from assms have "for_each ?step ([0 ..< m] @ [m]) (w, g) = Inr (w'', g'')"
    unfolding run_simulation_def n by simp
  then obtain w1 g1 where first: "for_each ?step [0 ..< m] (w, g) = Inr (w1, g1)"
    and last: "?step m (w1, g1) = Inr (w'', g'')"
    by (auto simp: for_each_append split: sum.splits)
  have "run_simulation exs (int m) (w, g) = Inr (w1, g1)"
    using first by (simp add: run_simulation_def)
  then show ?thesis using last that by blast
qed

lemma run_records:
  assumes iw: "initial_world c = Inr (exs, ts, w)" and m: "1 \<le> m"
    and run: "run_simulation exs (int (Suc m)) (w, g) = Inr (w'', g'')"
  shows "\<exists>w' g'. run_simulation exs (int m) (w, g) = Inr (w', g')
          \<and> length (trader_heap w') = length (trader_heap w'')
          \<and> (\<forall>t<length (trader_heap w''). \<forall>k s. account_series (trader_heap w'' ! t) k = Some s \<longrightarrow>
                (\<exists>s'. account_series (trader_heap w' ! t) k = Some s'
                   \<and> s = s' @ [clamp (dd_get 0 (account_balance (trader_heap w' ! t)) k)]))"
proof -
  from run obtain w' g' where r: "run_simulation exs (int m) (w, g) = Inr (w', g')"
    and step: "for_each (\<lambda>ex. Exchange_tick ex (int m)) exs (w', g') = Inr (w'', g'')"
    by (rule run_simulation_Suc)
  obtain j where j: "m = Suc j" using m by (cases m) simp_all
  have st: "settled (exchange_heap w) exs j w'"
    using run_settles [OF r initial_world_settled [OF iw]] by (simp add: j)
  note after = step_settles [OF step [unfolded j] settled_steady_next [OF st]]
  have "\<exists>s'. account_series (trader_heap w' ! t) k = Some s'
                   \<and> s = s' @ [clamp (dd_get 0 (account_balance (trader_heap w' ! t)) k)]"
    if "t < length (trader_heap w'')" and "account_series (trader_heap w'' ! t) k = Some s" for t k s
  proof (rule step_records [OF step [unfolded j] st _ that(2)])
    show "t < length (trader_heap w')" using that(1) after(2) by simp
  qed
  then show ?thesis using r after(2) by auto
qed

lemma first_step_records_nothing:
  assumes iw: "initial_world c = Inr (exs, ts, w)"
    and run: "run_simulation exs 1 (w, g) = Inr (w', g')" and t: "t < length (trader_heap w)"
  shows "account_series (trader_heap w' ! t) = account_series (trader_heap w ! t)"
proof -
  let ?x0 = "trader_heap w ! t"
  have "run_simulation exs (int (Suc 0)) (w, g) = Inr (w', g')" using run by simp
  then obtain w0 g0 where r0: "run_simulation exs (int 0) (w, g) = Inr (w0, g0)"
    and step: "for_each (\<lambda>ex. Exchange_tick ex (int 0)) exs (w0, g0) = Inr (w', g')"
    by (rule run_simulation_Suc)
  have "w0 = w" and "g0 = g" using r0 by (simp_all add: run_simulation_def)
  then have tc: "tick_calls (map (\<lambda>ex. (ex, 0 :: int)) exs) (w, g) = Inr (w', g')"
    using step by (simp add: step_tick_calls)
  from iw t obtain es i xs where nt: "trader_heap w ! t = new_trader c es i xs"
    by (rule initial_world_traders)
  have tk: "tick ?x0 = 0" by (simp add: nt)
  define P where "P x = (account_series x = account_series ?x0 \<and> 0 \<le> tick x)" for x :: trader
  have "P (trader_heap w' ! t)"
  proof (rule tick_calls_trader_invariant [OF tc t, where P = P])
    show "P ?x0" using tk by (simp add: P_def)
  next
    fix eh :: "exchange list" and zz p and n :: int and x
    assume "n \<in> snd ` set (map (\<lambda>ex. (ex, 0 :: int)) exs)" and p: "P x"
    then have "n = 0" by auto
    then show "P (receive_payoff eh zz p n x)"
      using p by (simp add: P_def receive_payoff_series fun_eq_iff)
  qed
  then show ?thesis by (simp add: P_def)
qed

lemma lucky_run_1:
  "map_sum id (\<lambda>(w', g'). (account_series (trader_heap w' ! 0) 30,
                             account_balance (trader_heap w' ! 0) 30, tick (trader_heap w' ! 0)))
     (run_simulation [0, 1] 1 (small_initial, lucky_rng)) =
   Inr (Some [1], Some (1400010018 / 10000), 0)"
  unfolding run_simulation_def upt_nat1 small_initial_eq
  by (simp add: Exchange_tick_def tick_payoff_def randint_def normal_def deliver_def
      receive_payoff_def record_balances_def held_zs_def record_balance_def dd_get_def Let_def
      lucky_rng_def RUIN_DECAY_def NEGATIVE_INFINITY_def RETURN_MEAN_def RETURN_STD_def
      MAX_PREMIUM_def)

lemma lucky_run_2:
  "map_sum id (\<lambda>(w', g'). (account_balance (trader_heap w' ! 0) 30, tick (trader_heap w' ! 0)))
     (run_simulation [0, 1] 2 (small_initial, lucky_rng)) =
   Inr (Some (1200010018 / 10000), 1)"
  unfolding run_simulation_def upt_nat2 small_initial_eq
  by (simp add: Exchange_tick_def tick_payoff_def randint_def normal_def deliver_def
      receive_payoff_def record_balances_def held_zs_def record_balance_def dd_get_def Let_def
      lucky_rng_def RUIN_DECAY_def NEGATIVE_INFINITY_def RETURN_MEAN_def RETURN_STD_def
      MAX_PREMIUM_def)








lemma balance_after_Inr:
  "run_simulation exs (int j) s = Inr (w', g') \<Longrightarrow>
   balance_after exs s j t k = dd_get 0 (account_balance (trader_heap w' ! t)) k"
  by (simp add: balance_after_def)

lemma run_series_closed:
  assumes iw: "initial_world c = Inr (exs, ts, w)"
  shows "1 \<le> S \<Longrightarrow> run_simulation exs (int S) (w, g) = Inr (w', g') \<Longrightarrow>
         t < length (trader_heap w') \<Longrightarrow> account_series (trader_heap w' ! t) k = Some s \<Longrightarrow>
         s = map (\<lambda>j. clamp (balance_after exs (w, g) j t k)) [0 ..< S]"
proof (induction S arbitrary: w' g' s)
  case 0
  then show ?case by simp
next
  case (Suc m)
  show ?case
  proof (cases "m = 0")
    case True
    have run1: "run_simulation exs 1 (w, g) = Inr (w', g')" using Suc.prems(2) True by simp
    have len: "length (trader_heap w') = length (trader_heap w)"
      using tick_calls_heap [OF run1 [unfolded run_simulation_tick_calls]] by simp
    then have t: "t < length (trader_heap w)" using Suc.prems(3) by simp
    have "account_series (trader_heap w ! t) k = Some s"
      using first_step_records_nothing [OF iw run1 t] Suc.prems(4) by simp
    moreover from iw t obtain es i xs where nt: "trader_heap w ! t = new_trader c es i xs"
      by (rule initial_world_traders)
    ultimately obtain b where s: "s = [b]" and b: "account_balance (trader_heap w ! t) k = Some b"
      and b0: "0 \<le> b"
      by (auto simp: new_trader_series new_trader_balance split: if_splits)
    have "run_simulation exs (int 0) (w, g) = Inr (w, g)" by (simp add: run_simulation_def)
    then have "balance_after exs (w, g) 0 t k = b"
      using b by (simp add: balance_after_Inr dd_get_def)
    then show ?thesis using s b0 True by (simp add: clamp_def)
  next
    case False
    then have m: "1 \<le> m" by simp
    from run_records [OF iw m Suc.prems(2)] obtain w1 g1
      where r: "run_simulation exs (int m) (w, g) = Inr (w1, g1)"
        and len: "length (trader_heap w1) = length (trader_heap w')"
        and rel: "\<forall>t<length (trader_heap w'). \<forall>k s. account_series (trader_heap w' ! t) k = Some s \<longrightarrow>
                (\<exists>s'. account_series (trader_heap w1 ! t) k = Some s'
                   \<and> s = s' @ [clamp (dd_get 0 (account_balance (trader_heap w1 ! t)) k)])"
      by blast
    from rel Suc.prems(3,4) obtain s1 where s1: "account_series (trader_heap w1 ! t) k = Some s1"
      and s: "s = s1 @ [clamp (dd_get 0 (account_balance (trader_heap w1 ! t)) k)]"
      by blast
    have t1: "t < length (trader_heap w1)" using Suc.prems(3) len by simp
    have "s1 = map (\<lambda>j. clamp (balance_after exs (w, g) j t k)) [0 ..< m]"
      by (rule Suc.IH [OF m r t1 s1])
    then show ?thesis using s by (simp add: balance_after_Inr [OF r])
  qed
qed

section \<open>Claims\<close>

text \<open>
  Claim C3. For a list of \<open>N \<ge> 1\<close> exchanges and \<open>b \<ge> 1\<close> bets for each trader, the
  flattened list has length \<open>N * b\<close>, \<open>generate_traders\<close> makes \<open>N * b - b + 1\<close>
  traders, and trader \<open>i\<close> holds the \<open>b\<close> consecutive entries of the flattened list that
  start at position \<open>i\<close>: windows of size \<open>b\<close> that advance by one.
\<close>

theorem generate_traders_sliding_windows:
  assumes "1 \<le> length exs" and "1 \<le> BETS_PER_TRADER c"
  shows "length (exchanges_perm (BETS_PER_TRADER c) exs) = length exs * BETS_PER_TRADER c
       \<and> length (fst (generate_traders c exs w)) = length exs * BETS_PER_TRADER c - BETS_PER_TRADER c + 1
       \<and> (\<forall>i < length (fst (generate_traders c exs w)).
            exchanges (trader_heap (snd (generate_traders c exs w)) ! (fst (generate_traders c exs w) ! i)) =
              take (BETS_PER_TRADER c) (drop i (exchanges_perm (BETS_PER_TRADER c) exs))
          \<and> length (exchanges (trader_heap (snd (generate_traders c exs w)) ! (fst (generate_traders c exs w) ! i))) =
              BETS_PER_TRADER c)"
proof (intro conjI allI impI)
  show "length (exchanges_perm (BETS_PER_TRADER c) exs) = length exs * BETS_PER_TRADER c"
    by (rule length_exchanges_perm)
  have ex: "length (fst (generate_traders c exs w)) = length (exchange_sets_of c exs)"
  proof -
    obtain ts w' where g: "generate_traders c exs w = (ts, w')" by (cases "generate_traders c exs w")
    show ?thesis using generate_traders_result(1) [OF g] g by simp
  qed
  show n: "length (fst (generate_traders c exs w)) = length exs * BETS_PER_TRADER c - BETS_PER_TRADER c + 1"
    using ex length_exchange_sets_pos [OF assms] by simp
  fix i assume i: "i < length (fst (generate_traders c exs w))"
  show e: "exchanges (trader_heap (snd (generate_traders c exs w)) ! (fst (generate_traders c exs w) ! i)) =
          take (BETS_PER_TRADER c) (drop i (exchanges_perm (BETS_PER_TRADER c) exs))"
    by (rule generated_trader_exchanges(3) [OF i])
  have "BETS_PER_TRADER c \<le> length exs * BETS_PER_TRADER c" using assms by simp
  then have "i + BETS_PER_TRADER c \<le> length exs * BETS_PER_TRADER c"
    using i n by arith
  then show "length (exchanges (trader_heap (snd (generate_traders c exs w)) ! (fst (generate_traders c exs w) ! i))) =
              BETS_PER_TRADER c"
    by (simp add: e length_exchanges_perm)
qed

text \<open>With the two exchanges 30 and 31 and two bets for each trader there are three traders.\<close>

theorem generate_traders_sliding_windows_witness:
  "1 \<le> length [0::nat, 1] \<and> 1 \<le> BETS_PER_TRADER small_config
   \<and> length (fst (generate_traders small_config [0, 1] small_world)) = 3"
  using generate_traders_sliding_windows [of "[0, 1]" small_config small_world]
  by (simp add: small_config_def)

theorem flattened_list_round_robin_counterexample:
  "exchanges_perm (BETS_PER_TRADER small_config) [0::nat, 1] = [0, 0, 1, 1]
   \<and> round_robin (BETS_PER_TRADER small_config) [0::nat, 1] = [0, 1, 0, 1]
   \<and> exchanges_perm (BETS_PER_TRADER small_config) [0::nat, 1]
       \<noteq> round_robin (BETS_PER_TRADER small_config) [0::nat, 1]
   \<and> exchanges (trader_heap (snd (generate_traders small_config [0, 1] small_world))
                  ! (fst (generate_traders small_config [0, 1] small_world) ! 0)) = [0, 0]"
proof -
  have rr: "round_robin (BETS_PER_TRADER small_config) [0::nat, 1] = [0, 1, 0, 1]"
    by (simp add: round_robin_def small_config_def numeral_2_eq_2)
  have i: "0 < length (fst (generate_traders small_config [0, 1] small_world))"
    by (simp add: length_generate_traders length_exchange_sets small_config_def)
  have "exchanges (trader_heap (snd (generate_traders small_config [0, 1] small_world))
                  ! (fst (generate_traders small_config [0, 1] small_world) ! 0)) = [0, 0]"
    using generated_trader_exchanges(3) [OF i]
    by (simp only: exchanges_perm_small) (simp add: small_config_def)
  then show ?thesis using exchanges_perm_small rr by simp
qed

theorem flattened_list_blocks:
  "exchanges_perm (BETS_PER_TRADER c) exs = concat (map (replicate (BETS_PER_TRADER c)) exs)
   \<and> (\<forall>k < length exs * BETS_PER_TRADER c.
         exchanges_perm (BETS_PER_TRADER c) exs ! k = exs ! (k div BETS_PER_TRADER c))
   \<and> (\<forall>i < length (fst (generate_traders c exs w)).
         exchanges (trader_heap (snd (generate_traders c exs w)) ! (fst (generate_traders c exs w) ! i)) =
           take (BETS_PER_TRADER c) (drop i (exchanges_perm (BETS_PER_TRADER c) exs)))"
  by (simp add: exchanges_perm_blocks [symmetric] nth_exchanges_perm generated_trader_exchanges(3))

theorem flattened_list_blocks_witness:
  "(3::nat) < length [0::nat, 1] * BETS_PER_TRADER small_config
   \<and> exchanges_perm (BETS_PER_TRADER small_config) [0::nat, 1] ! 3 = [0, 1] ! (3 div BETS_PER_TRADER small_config)
   \<and> (1::nat) < length (fst (generate_traders small_config [0, 1] small_world))
   \<and> exchanges (trader_heap (snd (generate_traders small_config [0, 1] small_world))
         ! (fst (generate_traders small_config [0, 1] small_world) ! 1)) = [0, 1]"
proof -
  note t = flattened_list_blocks [of small_config "[0, 1]" small_world]
  have k: "(3::nat) < length [0::nat, 1] * BETS_PER_TRADER small_config"
    by (simp add: small_config_def)
  have i: "(1::nat) < length (fst (generate_traders small_config [0, 1] small_world))"
    by (simp add: length_generate_traders length_exchange_sets small_config_def)
  have a: "exchanges_perm (BETS_PER_TRADER small_config) [0::nat, 1] ! 3 = [0, 1] ! (3 div BETS_PER_TRADER small_config)"
    using t k by blast
  have "exchanges (trader_heap (snd (generate_traders small_config [0, 1] small_world))
         ! (fst (generate_traders small_config [0, 1] small_world) ! 1)) =
        take (BETS_PER_TRADER small_config) (drop 1 (exchanges_perm (BETS_PER_TRADER small_config) [0, 1]))"
    using t i by blast
  then have b: "exchanges (trader_heap (snd (generate_traders small_config [0, 1] small_world))
         ! (fst (generate_traders small_config [0, 1] small_world) ! 1)) = [0, 1]"
    by (simp only: exchanges_perm_small) (simp add: small_config_def)
  from k a i b show ?thesis by blast
qed

text \<open>
  Claim C10. For at least one exchange and at least one bet for each trader, the exchanges of
  every trader made by \<open>generate_traders\<close> are at most two different ones; the first
  trader holds the first exchange only and the last trader the last exchange only, each
  \<open>BETS_PER_TRADER\<close> times.
\<close>

theorem traders_hold_at_most_two_exchanges:
  assumes "1 \<le> length exs" and "1 \<le> BETS_PER_TRADER c"
  shows "(\<forall>i < length (fst (generate_traders c exs w)).
           card (set (exchanges (trader_heap (snd (generate_traders c exs w))
                                  ! (fst (generate_traders c exs w) ! i)))) \<le> 2)
       \<and> exchanges (trader_heap (snd (generate_traders c exs w))
                      ! (fst (generate_traders c exs w) ! 0)) =
           replicate (BETS_PER_TRADER c) (hd exs)
       \<and> exchanges (trader_heap (snd (generate_traders c exs w))
                      ! (fst (generate_traders c exs w) ! (length (fst (generate_traders c exs w)) - 1))) =
           replicate (BETS_PER_TRADER c) (last exs)
       \<and> set (replicate (BETS_PER_TRADER c) (hd exs)) = {hd exs}
       \<and> set (replicate (BETS_PER_TRADER c) (last exs)) = {last exs}"
proof -
  let ?b = "BETS_PER_TRADER c"
  let ?ts = "fst (generate_traders c exs w)"
  let ?T = "\<lambda>i. exchanges (trader_heap (snd (generate_traders c exs w)) ! (?ts ! i))"
  have b: "0 < ?b" using assms by simp
  have ne: "exs \<noteq> []" using assms by auto
  have le: "?b \<le> length exs * ?b" using assms by simp
  have n: "length ?ts = length exs * ?b - ?b + 1"
    by (simp add: length_generate_traders length_exchange_sets_pos [OF assms])
  have two: "card (set (?T i)) \<le> 2" if i: "i < length ?ts" for i
  proof -
    have ib: "i + ?b \<le> length exs * ?b" using i n le by arith
    have "set (?T i) \<subseteq> {exs ! (i div ?b), exs ! Suc (i div ?b)}"
      using window_elements [OF b ib] by (simp add: generated_trader_exchanges(3) [OF i])
    then have "card (set (?T i)) \<le> card {exs ! (i div ?b), exs ! Suc (i div ?b)}"
      by (intro card_mono) simp_all
    also have "\<dots> \<le> 2" by (simp add: card_insert_if)
    finally show ?thesis .
  qed
  have z: "0 < length ?ts" using n by simp
  have first: "?T 0 = replicate ?b (hd exs)"
    using first_window [OF ne, of ?b] by (simp add: generated_trader_exchanges(3) [OF z])
  have l: "length ?ts - 1 < length ?ts" using n by simp
  have m: "length ?ts - 1 = length exs * ?b - ?b" using n by simp
  have "?T (length ?ts - 1) = take ?b (drop (length ?ts - 1) (exchanges_perm ?b exs))"
    by (rule generated_trader_exchanges(3) [OF l])
  then have final: "?T (length ?ts - 1) = replicate ?b (last exs)"
    by (simp only: m last_window [OF ne])
  show ?thesis using two first final b by simp
qed

text \<open>Trader 1 of the two exchanges 30 and 31.\<close>

theorem traders_hold_at_most_two_exchanges_witness:
  "1 \<le> length [0::nat, 1] \<and> 1 \<le> BETS_PER_TRADER small_config
   \<and> (1::nat) < length (fst (generate_traders small_config [0, 1] small_world))
   \<and> card (set (exchanges (trader_heap (snd (generate_traders small_config [0, 1] small_world))
                                  ! (fst (generate_traders small_config [0, 1] small_world) ! 1)))) \<le> 2"
proof -
  have h1: "1 \<le> length [0::nat, 1]" by simp
  have h2: "1 \<le> BETS_PER_TRADER small_config" by (simp add: small_config_def)
  have i: "(1::nat) < length (fst (generate_traders small_config [0, 1] small_world))"
    by (simp add: length_generate_traders length_exchange_sets small_config_def)
  show ?thesis
    using traders_hold_at_most_two_exchanges [OF h1 h2, of small_world] h1 h2 i by blast
qed

text \<open>
  Claim C7. Among the exchanges made by \<open>generate_exchanges\<close>, with the exponent
  \<open>PREMIUM_DECAY\<close> and the number of exchanges fixed, the exchange with the higher
  \<open>z\<close> has the strictly lower premium; the first exchange has the lowest \<open>z\<close>
  and no exchange has a higher premium than it.
\<close>

theorem premium_strictly_decreasing:
  assumes "generate_exchanges c = Inr es" and "i < length es" and "j < length es"
  shows "(z (es ! i) < z (es ! j) \<longrightarrow> premium (es ! j) < premium (es ! i))
       \<and> z (es ! 0) \<le> z (es ! j)
       \<and> premium (es ! j) \<le> premium (es ! 0)"
proof -
  have len: "length es = NUM_EXCHANGES c" by (rule generate_exchanges_Inr(1) [OF assms(1)])
  have z0: "0 < length es" using assms(2) by (cases es) simp_all
  note gi = generated_exchange [OF assms(1) assms(2)]
  note gj = generated_exchange [OF assms(1) assms(3)]
  note g0 = generated_exchange [OF assms(1) z0]
  have strict: "premium (es ! b) < premium (es ! a)" if "a < b" and "b < length es" for a b
  proof -
    have a: "a < length es" using that by simp
    show ?thesis
      using premium_strict [OF that(1), of "NUM_EXCHANGES c"] that(2)
      by (simp only: generated_exchange(6) [OF assms(1) a]
            generated_exchange(6) [OF assms(1) that(2)] len)
  qed
  have one: "z (es ! i) < z (es ! j) \<longrightarrow> premium (es ! j) < premium (es ! i)"
  proof
    assume "z (es ! i) < z (es ! j)"
    then have "i < j" by (simp add: gi(1) gj(1))
    then show "premium (es ! j) < premium (es ! i)" using assms(3) by (rule strict)
  qed
  have two: "z (es ! 0) \<le> z (es ! j)" by (simp add: g0(1) gj(1))
  have three: "premium (es ! j) \<le> premium (es ! 0)"
  proof (cases "j = 0")
    case True
    then show ?thesis by simp
  next
    case False
    then have "0 < j" by simp
    then have "premium (es ! j) < premium (es ! 0)" using assms(3) by (rule strict)
    then show ?thesis by simp
  qed
  show ?thesis by (intro conjI) (fact one, fact two, fact three)
qed

text \<open>The two exchanges 30 and 31.\<close>

theorem premium_strictly_decreasing_witness:
  "generate_exchanges small_config = Inr small_heap \<and> 0 < length small_heap \<and> 1 < length small_heap
   \<and> z (small_heap ! 0) < z (small_heap ! 1)
   \<and> premium (small_heap ! 1) < premium (small_heap ! 0)"
proof -
  have i: "0 < length small_heap" by (simp add: small_heap_def)
  have j: "1 < length small_heap" by (simp add: small_heap_def)
  have zz: "z (small_heap ! 0) < z (small_heap ! 1)" by (simp add: small_heap_def)
  have "z (small_heap ! 0) < z (small_heap ! 1) \<longrightarrow> premium (small_heap ! 1) < premium (small_heap ! 0)"
    using premium_strictly_decreasing [OF generate_exchanges_small i j] by (rule conjunct1)
  then have p: "premium (small_heap ! 1) < premium (small_heap ! 0)" using zz by (rule mp)
  show ?thesis by (intro conjI) (fact generate_exchanges_small, fact i, fact j, fact zz, fact p)
qed

text \<open>
  Claim C8, as the code has it. For the exchanges made by \<open>generate_exchanges\<close>, exchange
  \<open>i\<close> has \<open>z = MAX_RISK + i\<close> and rank \<open>i / (NUM_EXCHANGES - 1)\<close>, which lies
  between 0 and 1: the first exchange (lowest \<open>z\<close>) has rank 0 and the last one rank 1.
\<close>

theorem exchange_rank_between_zero_and_one:
  assumes "generate_exchanges c = Inr es" and "i < length es"
  shows "z (es ! i) = MAX_RISK c + int i
       \<and> exchange_rank c (z (es ! i)) = Inr (real i / (real (NUM_EXCHANGES c) - 1))
       \<and> rank_in 0 1 (exchange_rank c (z (es ! i)))
       \<and> (i = 0 \<longrightarrow> exchange_rank c (z (es ! i)) = Inr 0)
       \<and> (i = NUM_EXCHANGES c - 1 \<longrightarrow> exchange_rank c (z (es ! i)) = Inr 1)"
proof -
  note g = generated_exchange [OF assms]
  have iN: "i < NUM_EXCHANGES c" using assms(2) generate_exchanges_Inr(1) [OF assms(1)] by simp
  have a: "z (es ! i) = MAX_RISK c + int i" using g(1) by simp
  have b: "rank_in 0 1 (exchange_rank c (z (es ! i)))"
    using rank_bounds [OF iN] by (simp add: g(5) rank_in_def)
  have c: "i = 0 \<longrightarrow> exchange_rank c (z (es ! i)) = Inr 0"
  proof
    assume "i = 0"
    then have "real i / (real (NUM_EXCHANGES c) - 1) = 0" by simp
    then show "exchange_rank c (z (es ! i)) = Inr 0" by (simp only: g(5))
  qed
  have d: "i = NUM_EXCHANGES c - 1 \<longrightarrow> exchange_rank c (z (es ! i)) = Inr 1"
  proof
    assume e: "i = NUM_EXCHANGES c - 1"
    have "real (NUM_EXCHANGES c - 1) / (real (NUM_EXCHANGES c) - 1) = 1"
      by (rule last_rank [OF iN g(4)])
    then have "real i / (real (NUM_EXCHANGES c) - 1) = 1"
      by (simp only: e)
    then show "exchange_rank c (z (es ! i)) = Inr 1" by (simp only: g(5))
  qed
  show ?thesis by (intro conjI) (fact a, fact g(5), fact b, fact c, fact d)
qed

text \<open>The second of the two exchanges 30 and 31 has rank 1.\<close>

theorem exchange_rank_between_zero_and_one_witness:
  "generate_exchanges small_config = Inr small_heap \<and> 1 < length small_heap
   \<and> exchange_rank small_config (z (small_heap ! 1)) = Inr 1
   \<and> rank_in 0 1 (exchange_rank small_config (z (small_heap ! 1)))"
proof -
  have i: "1 < length small_heap" by (simp add: small_heap_def)
  note t = exchange_rank_between_zero_and_one [OF generate_exchanges_small i]
  have "exchange_rank small_config (z (small_heap ! 1)) =
        Inr (real 1 / (real (NUM_EXCHANGES small_config) - 1))"
    using t by (rule_tac conjunct1 [OF conjunct2])
  then have r: "exchange_rank small_config (z (small_heap ! 1)) = Inr 1"
    by (simp add: small_config_def)
  have k: "rank_in 0 1 (exchange_rank small_config (z (small_heap ! 1)))"
    using t by (rule_tac conjunct1 [OF conjunct2 [OF conjunct2]])
  show ?thesis by (intro conjI) (fact generate_exchanges_small, fact i, fact r, fact k)
qed

text \<open>
  With the constants of the source the last exchange has \<open>z = 37\<close> and rank 1, which
  is not between -1 and 0.
\<close>

theorem exchange_rank_claimed_interval_counterexample:
  "(7::nat) < NUM_EXCHANGES ruin_config
   \<and> exchange_rank ruin_config (int 7 + MAX_RISK ruin_config) = Inr 1
   \<and> \<not> rank_in (- 1) 0 (exchange_rank ruin_config (int 7 + MAX_RISK ruin_config))"
  by (simp add: ruin_config_def exchange_rank_def rank_in_def)

text \<open>
  Claim C9. An exchange with \<open>z = 1\<close> that has not failed fails at its next \<open>tick\<close>,
  whatever the state of the random source: the payoff is \<open>NEGATIVE_INFINITY\<close>, one draw is
  made, the exchange is failed afterwards, and the payoff goes to its traders.
\<close>

theorem risk_one_fails_at_first_tick:
  assumes "r < length (exchange_heap w)" and "z (exchange_heap w ! r) = 1"
    and "\<not> is_dead (exchange_heap w ! r)"
  shows "tick_payoff (exchange_heap w ! r) g =
           Inr (NEGATIVE_INFINITY, (exchange_heap w ! r)\<lparr>is_dead := True\<rparr>, g\<lparr>cursor := Suc (cursor g)\<rparr>)
       \<and> (\<exists>w'. Exchange_tick r n (w, g) = Inr (w', g\<lparr>cursor := Suc (cursor g)\<rparr>)
             \<and> is_dead (exchange_heap w' ! r)
             \<and> w' = fold (deliver 1 NEGATIVE_INFINITY n) (traders (exchange_heap w ! r))
                      (w\<lparr>exchange_heap := (exchange_heap w)[r := (exchange_heap w ! r)\<lparr>is_dead := True\<rparr>]\<rparr>))"
proof -
  have p: "tick_payoff (exchange_heap w ! r) g =
           Inr (NEGATIVE_INFINITY, (exchange_heap w ! r)\<lparr>is_dead := True\<rparr>, g\<lparr>cursor := Suc (cursor g)\<rparr>)"
    using assms(2,3) by (simp add: tick_payoff_def randint_def)
  have t: "Exchange_tick r n (w, g) =
      Inr (fold (deliver 1 NEGATIVE_INFINITY n) (traders (exchange_heap w ! r))
                      (w\<lparr>exchange_heap := (exchange_heap w)[r := (exchange_heap w ! r)\<lparr>is_dead := True\<rparr>]\<rparr>),
           g\<lparr>cursor := Suc (cursor g)\<rparr>)"
    using assms(2) by (simp add: Exchange_tick_def p)
  have d: "is_dead (exchange_heap (fold (deliver 1 NEGATIVE_INFINITY n) (traders (exchange_heap w ! r))
                      (w\<lparr>exchange_heap := (exchange_heap w)[r := (exchange_heap w ! r)\<lparr>is_dead := True\<rparr>]\<rparr>)) ! r)"
    using assms(1) by simp
  show ?thesis using p t d by blast
qed

text \<open>An exchange with \<open>z = 1\<close> and a source whose next raw outcome is 5.\<close>

theorem risk_one_fails_at_first_tick_witness:
  "0 < length (exchange_heap risk_one_world) \<and> z (exchange_heap risk_one_world ! 0) = 1
   \<and> \<not> is_dead (exchange_heap risk_one_world ! 0)
   \<and> tick_payoff (exchange_heap risk_one_world ! 0) sample_rng =
        Inr (NEGATIVE_INFINITY, (exchange_heap risk_one_world ! 0)\<lparr>is_dead := True\<rparr>,
             sample_rng\<lparr>cursor := Suc (cursor sample_rng)\<rparr>)"
proof -
  have a: "0 < length (exchange_heap risk_one_world)" by (simp add: risk_one_world_def)
  have b: "z (exchange_heap risk_one_world ! 0) = 1" by (simp add: risk_one_world_def)
  have c: "\<not> is_dead (exchange_heap risk_one_world ! 0)" by (simp add: risk_one_world_def)
  show ?thesis using risk_one_fails_at_first_tick [OF a b c, of sample_rng 0] a b c by simp
qed

subsection \<open>C1: a failed exchange pays zero\<close>

text \<open>
  Claim C1. A failed exchange stays failed, and each of its later calls of \<open>tick\<close> has
  payoff exactly 0 and makes no draw: the state of the random source is returned unchanged.
  The call still notifies its traders: the trader heap after the call holds, for every trader,
  the result of \<open>receive_payoff z 0 n\<close> applied once for each of that trader's entries in the
  exchange's list. A registered trader has then observed the step (its \<open>tick\<close> is the larger
  of \<open>n\<close> and its old value) and its balance for \<open>z\<close> is the old one, clamped if this
  notification recorded the previous step, plus 0; a trader that is not registered is
  unchanged, and so is the exchange heap.
\<close>

theorem dead_exchange_pays_zero:
  assumes "r < length (exchange_heap w)" and "is_dead (exchange_heap w ! r)"
  shows "tick_payoff (exchange_heap w ! r) g = Inr (0, exchange_heap w ! r, g)
       \<and> Exchange_tick r n (w, g) =
           Inr (fold (deliver (z (exchange_heap w ! r)) 0 n) (traders (exchange_heap w ! r)) w, g)
       \<and> (\<exists>w'. Exchange_tick r n (w, g) = Inr (w', g)
             \<and> exchange_heap w' = exchange_heap w
             \<and> length (trader_heap w') = length (trader_heap w)
             \<and> (\<forall>t<length (trader_heap w).
                  trader_heap w' ! t =
                    (receive_payoff (exchange_heap w) (z (exchange_heap w ! r)) 0 n
                       ^^ count_list (traders (exchange_heap w ! r)) t) (trader_heap w ! t)
                  \<and> (t \<in> set (traders (exchange_heap w ! r)) \<longrightarrow>
                       tick (trader_heap w' ! t) = max n (tick (trader_heap w ! t))
                       \<and> dd_get 0 (account_balance (trader_heap w' ! t)) (z (exchange_heap w ! r)) =
                           (let b = dd_get 0 (account_balance (trader_heap w ! t)) (z (exchange_heap w ! r))
                            in if tick (trader_heap w ! t) < n
                                  \<and> z (exchange_heap w ! r) \<in> set (held_zs (exchange_heap w) (trader_heap w ! t))
                               then (if b < 0 then 0 else b) else b) + 0)
                  \<and> (t \<notin> set (traders (exchange_heap w ! r)) \<longrightarrow>
                       trader_heap w' ! t = trader_heap w ! t)))
       \<and> (\<forall>cs w' g'. tick_calls cs (w, g) = Inr (w', g') \<longrightarrow>
             r < length (exchange_heap w') \<and> is_dead (exchange_heap w' ! r)
             \<and> tick_payoff (exchange_heap w' ! r) g' = Inr (0, exchange_heap w' ! r, g'))"
proof (intro conjI allI impI)
  let ?zz = "z (exchange_heap w ! r)" and ?ts = "traders (exchange_heap w ! r)"
  let ?w' = "fold (deliver ?zz 0 n) ?ts w"
  show "tick_payoff (exchange_heap w ! r) g = Inr (0, exchange_heap w ! r, g)"
    using assms(2) by (rule tick_payoff_dead)
  show e: "Exchange_tick r n (w, g) = Inr (?w', g)"
    using assms(2) by (rule Exchange_tick_dead)
  have each: "trader_heap ?w' ! t =
                    (receive_payoff (exchange_heap w) ?zz 0 n ^^ count_list ?ts t) (trader_heap w ! t)
                  \<and> (t \<in> set ?ts \<longrightarrow>
                       tick (trader_heap ?w' ! t) = max n (tick (trader_heap w ! t))
                       \<and> dd_get 0 (account_balance (trader_heap ?w' ! t)) ?zz =
                           (let b = dd_get 0 (account_balance (trader_heap w ! t)) ?zz
                            in if tick (trader_heap w ! t) < n
                                  \<and> ?zz \<in> set (held_zs (exchange_heap w) (trader_heap w ! t))
                               then (if b < 0 then 0 else b) else b) + 0)
                  \<and> (t \<notin> set ?ts \<longrightarrow> trader_heap ?w' ! t = trader_heap w ! t)"
    if t: "t < length (trader_heap w)" for t
  proof (intro conjI impI)
    show eq: "trader_heap ?w' ! t =
       (receive_payoff (exchange_heap w) ?zz 0 n ^^ count_list ?ts t) (trader_heap w ! t)"
      using t by (rule fold_deliver_nth)
    {
      assume "t \<in> set ?ts"
      then have "count_list ?ts t \<noteq> 0" by (simp add: count_list_0_iff)
      then have k: "0 < count_list ?ts t" by simp
      show "tick (trader_heap ?w' ! t) = max n (tick (trader_heap w ! t))"
        unfolding eq by (rule tick_funpow_receive_payoff [OF k])
      show "dd_get 0 (account_balance (trader_heap ?w' ! t)) ?zz =
                           (let b = dd_get 0 (account_balance (trader_heap w ! t)) ?zz
                            in if tick (trader_heap w ! t) < n
                                  \<and> ?zz \<in> set (held_zs (exchange_heap w) (trader_heap w ! t))
                               then (if b < 0 then 0 else b) else b) + 0"
        unfolding eq funpow_receive_payoff_balance [OF k] by (simp add: clamp_def Let_def)
    }
    {
      assume "t \<notin> set ?ts"
      then have "count_list ?ts t = 0" by (simp add: count_list_0_iff)
      then show "trader_heap ?w' ! t = trader_heap w ! t" unfolding eq by simp
    }
  qed
  show "\<exists>w'. Exchange_tick r n (w, g) = Inr (w', g)
             \<and> exchange_heap w' = exchange_heap w
             \<and> length (trader_heap w') = length (trader_heap w)
             \<and> (\<forall>t<length (trader_heap w).
                  trader_heap w' ! t =
                    (receive_payoff (exchange_heap w) (z (exchange_heap w ! r)) 0 n
                       ^^ count_list (traders (exchange_heap w ! r)) t) (trader_heap w ! t)
                  \<and> (t \<in> set (traders (exchange_heap w ! r)) \<longrightarrow>
                       tick (trader_heap w' ! t) = max n (tick (trader_heap w ! t))
                       \<and> dd_get 0 (account_balance (trader_heap w' ! t)) (z (exchange_heap w ! r)) =
                           (let b = dd_get 0 (account_balance (trader_heap w ! t)) (z (exchange_heap w ! r))
                            in if tick (trader_heap w ! t) < n
                                  \<and> z (exchange_heap w ! r) \<in> set (held_zs (exchange_heap w) (trader_heap w ! t))
                               then (if b < 0 then 0 else b) else b) + 0)
                  \<and> (t \<notin> set (traders (exchange_heap w ! r)) \<longrightarrow>
                       trader_heap w' ! t = trader_heap w ! t))"
  proof (rule exI [of _ ?w'], intro conjI allI impI)
    show "Exchange_tick r n (w, g) = Inr (?w', g)" by (rule e)
    show "exchange_heap ?w' = exchange_heap w" by simp
    show "length (trader_heap ?w') = length (trader_heap w)" by simp
  qed (use each in blast)+
next
  fix cs w' g' assume c: "tick_calls cs (w, g) = Inr (w', g')"
  note h = tick_calls_heap [OF c, of r]
  show "r < length (exchange_heap w')" using h assms(1) by simp
  show d: "is_dead (exchange_heap w' ! r)" using h assms(2) by simp
  show "tick_payoff (exchange_heap w' ! r) g' = Inr (0, exchange_heap w' ! r, g')"
    using d by (rule tick_payoff_dead)
qed

text \<open>The failed exchange of \<open>dead_world\<close>, ticked at step 2: its trader records step 1,
  moves to step 2 and keeps the balance 1/4; the other trader is not touched; no draw is made.\<close>

theorem dead_exchange_pays_zero_witness:
  "0 < length (exchange_heap dead_world) \<and> is_dead (exchange_heap dead_world ! 0)
   \<and> tick_payoff (exchange_heap dead_world ! 0) sample_rng = Inr (0, exchange_heap dead_world ! 0, sample_rng)
   \<and> map_sum id (\<lambda>(w', g'). (exchange_heap w', trader_heap w' ! 0, trader_heap w' ! 1, g'))
         (Exchange_tick 0 2 (dead_world, sample_rng)) =
       Inr (exchange_heap dead_world,
            \<lparr>trader_id = 0, exchanges = [0], account_balance = [30 \<mapsto> 1 / 4],
              account_series = [30 \<mapsto> [1 / 2, 1 / 4, 1 / 4]], tick = 2\<rparr>,
            trader_heap dead_world ! 1, sample_rng)"
proof -
  have a: "0 < length (exchange_heap dead_world)" by (simp add: dead_world_def)
  have b: "is_dead (exchange_heap dead_world ! 0)" by (simp add: dead_world_def)
  note t = dead_exchange_pays_zero [OF a b, of sample_rng 2]
  have p: "tick_payoff (exchange_heap dead_world ! 0) sample_rng =
           Inr (0, exchange_heap dead_world ! 0, sample_rng)"
    using t by (rule conjunct1)
  from t obtain w' where e: "Exchange_tick 0 2 (dead_world, sample_rng) = Inr (w', sample_rng)"
    and eh: "exchange_heap w' = exchange_heap dead_world"
    and each: "\<forall>t<length (trader_heap dead_world).
        trader_heap w' ! t =
          (receive_payoff (exchange_heap dead_world) (z (exchange_heap dead_world ! 0)) 0 2
             ^^ count_list (traders (exchange_heap dead_world ! 0)) t) (trader_heap dead_world ! t)
        \<and> (t \<notin> set (traders (exchange_heap dead_world ! 0)) \<longrightarrow>
              trader_heap w' ! t = trader_heap dead_world ! t)"
    by blast
  have "trader_heap w' ! 0 =
      (receive_payoff (exchange_heap dead_world) (z (exchange_heap dead_world ! 0)) 0 2
             ^^ count_list (traders (exchange_heap dead_world ! 0)) 0) (trader_heap dead_world ! 0)"
    using each by (simp add: dead_world_def)
  then have t0: "trader_heap w' ! 0 =
      \<lparr>trader_id = 0, exchanges = [0], account_balance = [30 \<mapsto> 1 / 4],
        account_series = [30 \<mapsto> [1 / 2, 1 / 4, 1 / 4]], tick = 2\<rparr>"
    by (simp add: dead_world_def receive_payoff_def record_balances_def held_zs_def
        record_balance_def dd_get_def Let_def)
  have t1: "trader_heap w' ! 1 = trader_heap dead_world ! 1"
    using each by (simp add: dead_world_def)
  have r: "map_sum id (\<lambda>(w', g'). (exchange_heap w', trader_heap w' ! 0, trader_heap w' ! 1, g'))
         (Exchange_tick 0 2 (dead_world, sample_rng)) =
       Inr (exchange_heap dead_world,
            \<lparr>trader_id = 0, exchanges = [0], account_balance = [30 \<mapsto> 1 / 4],
              account_series = [30 \<mapsto> [1 / 2, 1 / 4, 1 / 4]], tick = 2\<rparr>,
            trader_heap dead_world ! 1, sample_rng)"
    unfolding e by (simp only: map_sum.simps prod.case eh t0 t1 id_apply)
  show ?thesis by (intro conjI) (fact a, fact b, fact p, fact r)
qed

subsection \<open>C2: recorded balances are never negative\<close>

text \<open>Claim C2. For every trader of the generated world the keys of its \<open>account_series\<close>
  are the \<open>z\<close> of the exchanges it holds, and every entry of every series is at least 0:
  after any sequence of calls of \<open>Exchange.tick\<close>, in particular after \<open>run_simulation\<close>
  for any number of steps, whatever the draws. The series seeded by \<open>Trader.__init__\<close>
  holds the one initial balance, which is not negative. Every later entry is clamped before it
  is appended: \<open>record_balances\<close> appends, for each key the trader holds, 0 if the current
  balance is negative and the balance itself otherwise, and leaves the other keys alone; and
  one call of \<open>Exchange.tick\<close>, from any world, changes a trader's series only by that
  append, made when the trader is registered at the exchange and has not yet seen the step.\<close>

theorem balance_history_nonnegative:
  assumes "initial_world c = Inr (exs, ts, w)"
  shows "(\<forall>cs w' g'. tick_calls cs (w, g) = Inr (w', g') \<longrightarrow>
            (\<forall>t<length (trader_heap w'). \<forall>k s. account_series (trader_heap w' ! t) k = Some s \<longrightarrow>
               (\<forall>x\<in>set s. 0 \<le> x)))
       \<and> (\<forall>steps w' g'. run_simulation exs steps (w, g) = Inr (w', g') \<longrightarrow>
            (\<forall>t<length (trader_heap w'). \<forall>k s. account_series (trader_heap w' ! t) k = Some s \<longrightarrow>
               (\<forall>x\<in>set s. 0 \<le> x)))
       \<and> (\<forall>t<length (trader_heap w).
            dom (account_series (trader_heap w ! t)) = set (held_zs (exchange_heap w) (trader_heap w ! t))
            \<and> (\<forall>k s. account_series (trader_heap w ! t) k = Some s \<longrightarrow>
                 (\<exists>b. s = [b] \<and> account_balance (trader_heap w ! t) k = Some b \<and> 0 \<le> b)))
       \<and> (\<forall>eh n x k. account_series (record_balances eh n x) k =
            (if k \<in> set (held_zs eh x)
             then Some (dd_get [] (account_series x) k
                        @ [if dd_get 0 (account_balance x) k < 0 then 0
                           else dd_get 0 (account_balance x) k])
             else account_series x k))
       \<and> (\<forall>r n w1 g1 w2 g2 t k.
            Exchange_tick r n (w1, g1) = Inr (w2, g2) \<longrightarrow> t < length (trader_heap w1) \<longrightarrow>
            account_series (trader_heap w2 ! t) k =
              (if t \<in> set (traders (exchange_heap w1 ! r)) \<and> tick (trader_heap w1 ! t) < n
                  \<and> k \<in> set (held_zs (exchange_heap w1) (trader_heap w1 ! t))
               then Some (dd_get [] (account_series (trader_heap w1 ! t)) k
                          @ [if dd_get 0 (account_balance (trader_heap w1 ! t)) k < 0 then 0
                             else dd_get 0 (account_balance (trader_heap w1 ! t)) k])
               else account_series (trader_heap w1 ! t) k))"
proof -
  have calls: "\<forall>t<length (trader_heap w'). series_nonneg (trader_heap w' ! t)"
    if "tick_calls cs (w, g) = Inr (w', g')" for cs w' g'
    by (rule tick_calls_invariant [OF that _ initial_world_series_nonneg [OF assms]])
       (rule series_nonneg_receive_payoff)
  have one: "\<forall>cs w' g'. tick_calls cs (w, g) = Inr (w', g') \<longrightarrow>
            (\<forall>t<length (trader_heap w'). \<forall>k s. account_series (trader_heap w' ! t) k = Some s \<longrightarrow>
               (\<forall>x\<in>set s. 0 \<le> x))"
    using calls unfolding series_nonneg_def by blast
  have two: "\<forall>steps w' g'. run_simulation exs steps (w, g) = Inr (w', g') \<longrightarrow>
            (\<forall>t<length (trader_heap w'). \<forall>k s. account_series (trader_heap w' ! t) k = Some s \<longrightarrow>
               (\<forall>x\<in>set s. 0 \<le> x))"
    using one unfolding run_simulation_tick_calls by blast
  have three: "\<forall>t<length (trader_heap w).
            dom (account_series (trader_heap w ! t)) = set (held_zs (exchange_heap w) (trader_heap w ! t))
            \<and> (\<forall>k s. account_series (trader_heap w ! t) k = Some s \<longrightarrow>
                 (\<exists>b. s = [b] \<and> account_balance (trader_heap w ! t) k = Some b \<and> 0 \<le> b))"
  proof (intro allI impI conjI)
    fix t assume t: "t < length (trader_heap w)"
    have "linked (exchange_heap w) exs t (trader_heap w ! t)"
      using initial_world_settled [OF assms] t by (simp add: settled_def)
    then show "dom (account_series (trader_heap w ! t)) =
        set (held_zs (exchange_heap w) (trader_heap w ! t))"
      by (simp add: linked_def keys_ok_def)
    fix k s assume s: "account_series (trader_heap w ! t) k = Some s"
    from assms t obtain es i xs where nt: "trader_heap w ! t = new_trader c es i xs"
      by (rule initial_world_traders)
    show "\<exists>b. s = [b] \<and> account_balance (trader_heap w ! t) k = Some b \<and> 0 \<le> b"
      using s unfolding nt
      by (auto simp: new_trader_series new_trader_balance split: if_splits)
  qed
  have four: "\<forall>eh n x k. account_series (record_balances eh n x) k =
            (if k \<in> set (held_zs eh x)
             then Some (dd_get [] (account_series x) k
                        @ [if dd_get 0 (account_balance x) k < 0 then 0
                           else dd_get 0 (account_balance x) k])
             else account_series x k)"
    by (simp add: record_balances_series clamp_def)
  have five: "\<forall>r n w1 g1 w2 g2 t k.
            Exchange_tick r n (w1, g1) = Inr (w2, g2) \<longrightarrow> t < length (trader_heap w1) \<longrightarrow>
            account_series (trader_heap w2 ! t) k =
              (if t \<in> set (traders (exchange_heap w1 ! r)) \<and> tick (trader_heap w1 ! t) < n
                  \<and> k \<in> set (held_zs (exchange_heap w1) (trader_heap w1 ! t))
               then Some (dd_get [] (account_series (trader_heap w1 ! t)) k
                          @ [if dd_get 0 (account_balance (trader_heap w1 ! t)) k < 0 then 0
                             else dd_get 0 (account_balance (trader_heap w1 ! t)) k])
               else account_series (trader_heap w1 ! t) k)"
  proof (intro allI impI)
    fix r n w1 g1 w2 g2 t k
    assume "Exchange_tick r n (w1, g1) = Inr (w2, g2)" and "t < length (trader_heap w1)"
    then show "account_series (trader_heap w2 ! t) k =
              (if t \<in> set (traders (exchange_heap w1 ! r)) \<and> tick (trader_heap w1 ! t) < n
                  \<and> k \<in> set (held_zs (exchange_heap w1) (trader_heap w1 ! t))
               then Some (dd_get [] (account_series (trader_heap w1 ! t)) k
                          @ [if dd_get 0 (account_balance (trader_heap w1 ! t)) k < 0 then 0
                             else dd_get 0 (account_balance (trader_heap w1 ! t)) k])
               else account_series (trader_heap w1 ! t) k)"
      by (simp add: Exchange_tick_series clamp_def)
  qed
  show ?thesis by (intro conjI) (fact one, fact two, fact three, fact four, fact five)
qed

text \<open>The two exchanges 30 and 31 with a source under which exchange 30 fails at step 0.
  After that step trader 0 has the balance \<open>1 - 2 * 10000\<close> there and its seed as only entry;
  \<open>record_balances\<close> appends 0 for it, and after step 1 the series is \<open>[1, 0]\<close>.\<close>

theorem balance_history_nonnegative_witness:
  "initial_world small_config = Inr ([0, 1], [0, 1, 2], small_initial)
   \<and> map_sum id (\<lambda>(w', g'). trader_heap w' ! 0)
       (run_simulation [0, 1] 1 (small_initial, ruin_rng)) = Inr ruined_trader
   \<and> account_balance ruined_trader 30 = Some (- 19999)
   \<and> account_series ruined_trader 30 = Some [1]
   \<and> account_series (record_balances (exchange_heap small_initial) 0 ruined_trader) 30 = Some [1, 0]
   \<and> map_sum id (\<lambda>(w', g'). account_series (trader_heap w' ! 0) 30)
       (run_simulation [0, 1] 2 (small_initial, ruin_rng)) = Inr (Some [1, 0])
   \<and> (0::real) \<le> 1 \<and> (0::real) \<le> 0"
proof -
  note t = balance_history_nonnegative [OF initial_world_small, of ruin_rng]
  from ruin_run_2 obtain w' g' where run: "run_simulation [0, 1] 2 (small_initial, ruin_rng) = Inr (w', g')"
    and s: "account_series (trader_heap w' ! 0) 30 = Some [1, 0]"
    by (cases "run_simulation [0, 1] 2 (small_initial, ruin_rng)") auto
  have len: "0 < length (trader_heap w')"
    using tick_calls_heap [OF run [unfolded run_simulation_tick_calls]]
    by (simp add: small_initial_eq)
  have nonneg: "\<forall>x\<in>set [1, 0 :: real]. 0 \<le> x"
    using t [THEN conjunct2, THEN conjunct1] run len s by blast
  have "account_series (record_balances (exchange_heap small_initial) 0 ruined_trader) 30 =
      (if 30 \<in> set (held_zs (exchange_heap small_initial) ruined_trader)
       then Some (dd_get [] (account_series ruined_trader) 30
                  @ [if dd_get 0 (account_balance ruined_trader) 30 < 0 then 0
                     else dd_get 0 (account_balance ruined_trader) 30])
       else account_series ruined_trader 30)"
    using t [THEN conjunct2, THEN conjunct2, THEN conjunct2, THEN conjunct1] by blast
  then have rec: "account_series (record_balances (exchange_heap small_initial) 0 ruined_trader) 30 =
      Some [1, 0]"
    by (simp add: small_initial_eq ruined_trader_def held_zs_def dd_get_def)
  have b: "account_balance ruined_trader 30 = Some (- 19999)"
    and c: "account_series ruined_trader 30 = Some [1]"
    by (simp_all add: ruined_trader_def)
  have d: "(0::real) \<le> 1" and e: "(0::real) \<le> 0" using nonneg by simp_all
  show ?thesis
    by (intro conjI) (fact initial_world_small, fact ruin_run_1, fact b, fact c, fact rec,
        fact ruin_run_2, fact d, fact e)
qed

subsection \<open>C5: the last step is never recorded\<close>

text \<open>Claim C5. After \<open>run_simulation\<close> with \<open>S \<ge> 1\<close> steps on the generated world,
  every series of every trader has exactly \<open>S\<close> entries, the trader's \<open>tick\<close> is
  \<open>S - 1\<close>, and the keys of the series are the \<open>z\<close> of the exchanges the trader holds.
  The entries are the seed and the balances with which the steps 0 to \<open>S - 2\<close> ended: one
  step leaves every series as seeded, and the series after \<open>S + 1\<close> steps is the series after
  \<open>S\<close> steps followed by one entry, the clamped balance the trader had when those \<open>S\<close>
  steps were over. In all, entry \<open>j\<close> of a series after \<open>S\<close> steps is the clamped balance
  the trader had when \<open>j\<close> steps were over, for \<open>j\<close> from 0 to \<open>S - 1\<close>. So the balance
  with which the last step ends, the one after \<open>S\<close> steps, is held in
  \<open>account_balance\<close> only; nothing appends it unless a later step notifies the trader.
  At every point of any sequence of ticks all series of one trader have the same length. The
  run returns whenever \<open>MAX_RISK\<close> is positive and the square of the largest \<open>z\<close> is in
  the range of \<open>randint\<close>.\<close>

theorem final_step_not_recorded:
  assumes "initial_world c = Inr (exs, ts, w)" and "1 \<le> S"
  shows "(0 < MAX_RISK c \<and> (MAX_RISK c + int (NUM_EXCHANGES c) - 1) ^ RUIN_DECAY \<le> 2 ^ 63 \<longrightarrow>
            (\<exists>w' g'. run_simulation exs (int S) (w, g) = Inr (w', g')))
       \<and> (\<forall>w' g'. run_simulation exs (int S) (w, g) = Inr (w', g') \<longrightarrow>
            length (trader_heap w') = length (trader_heap w)
            \<and> (\<forall>t<length (trader_heap w'). \<forall>k s. account_series (trader_heap w' ! t) k = Some s \<longrightarrow>
                 length s = S \<and> tick (trader_heap w' ! t) = int S - 1)
            \<and> (\<forall>t<length (trader_heap w').
                 dom (account_series (trader_heap w' ! t)) =
                   set (held_zs (exchange_heap w) (trader_heap w' ! t))))
       \<and> (\<forall>cs w' g'. tick_calls cs (w, g) = Inr (w', g') \<longrightarrow>
            (\<forall>t<length (trader_heap w'). \<forall>k s k' s'.
               account_series (trader_heap w' ! t) k = Some s \<longrightarrow>
               account_series (trader_heap w' ! t) k' = Some s' \<longrightarrow> length s = length s'))
       \<and> run_simulation exs (int S) (w, g) = tick_calls (sim_calls exs (int S)) (w, g)
       \<and> (\<forall>w1 g1. run_simulation exs 1 (w, g) = Inr (w1, g1) \<longrightarrow>
            length (trader_heap w1) = length (trader_heap w)
            \<and> (\<forall>t<length (trader_heap w1).
                 account_series (trader_heap w1 ! t) = account_series (trader_heap w ! t)))
       \<and> (\<forall>w2 g2. run_simulation exs (int S + 1) (w, g) = Inr (w2, g2) \<longrightarrow>
            (\<exists>w1 g1. run_simulation exs (int S) (w, g) = Inr (w1, g1)
               \<and> length (trader_heap w1) = length (trader_heap w2)
               \<and> (\<forall>t<length (trader_heap w2). \<forall>k s.
                    account_series (trader_heap w2 ! t) k = Some s \<longrightarrow>
                    (\<exists>s1. account_series (trader_heap w1 ! t) k = Some s1
                       \<and> s = s1 @ [if dd_get 0 (account_balance (trader_heap w1 ! t)) k < 0 then 0
                                    else dd_get 0 (account_balance (trader_heap w1 ! t)) k]))))
       \<and> (\<forall>w' g'. run_simulation exs (int S) (w, g) = Inr (w', g') \<longrightarrow>
            (\<forall>t<length (trader_heap w'). \<forall>k s. account_series (trader_heap w' ! t) k = Some s \<longrightarrow>
               s = map (\<lambda>j. if balance_after exs (w, g) j t k < 0 then 0
                            else balance_after exs (w, g) j t k) [0 ..< S]))"
proof (intro conjI allI impI)
  assume "0 < MAX_RISK c \<and> (MAX_RISK c + int (NUM_EXCHANGES c) - 1) ^ RUIN_DECAY \<le> 2 ^ 63"
  then show "\<exists>w' g'. run_simulation exs (int S) (w, g) = Inr (w', g')"
    using run_simulation_total [OF assms(1)] by simp
next
  fix w' g' assume run: "run_simulation exs (int S) (w, g) = Inr (w', g')"
  note r = run_settles [OF run initial_world_settled [OF assms(1)]]
  show "length (trader_heap w') = length (trader_heap w)" using r by blast
  fix t k s assume t: "t < length (trader_heap w')"
    and s: "account_series (trader_heap w' ! t) k = Some s"
  have "at_step (S - 1) (trader_heap w' ! t)" using r t by (simp add: settled_def)
  moreover have "dom (account_series (trader_heap w' ! t)) \<noteq> {}" using s by auto
  ultimately have "tick (trader_heap w' ! t) = int (S - 1)" and "series_len (Suc (S - 1)) (trader_heap w' ! t)"
    by (simp_all add: at_step_def)
  then show "length s = S" and "tick (trader_heap w' ! t) = int S - 1"
    using s assms(2) by (simp_all add: series_len_def of_nat_diff)
next
  fix w' g' t assume run: "run_simulation exs (int S) (w, g) = Inr (w', g')"
    and t: "t < length (trader_heap w')"
  note r = run_settles [OF run initial_world_settled [OF assms(1)]]
  have "linked (exchange_heap w) exs t (trader_heap w' ! t)" using r t by (simp add: settled_def)
  then show "dom (account_series (trader_heap w' ! t)) =
      set (held_zs (exchange_heap w) (trader_heap w' ! t))"
    by (simp add: linked_def keys_ok_def)
next
  fix cs w' g' t k s k' s'
  assume "tick_calls cs (w, g) = Inr (w', g')" and "t < length (trader_heap w')"
    and "account_series (trader_heap w' ! t) k = Some s"
    and "account_series (trader_heap w' ! t) k' = Some s'"
  then show "length s = length s'"
    using tick_calls_same_lengths [OF assms(1)] unfolding same_lengths_def by blast
next
  show "run_simulation exs (int S) (w, g) = tick_calls (sim_calls exs (int S)) (w, g)"
    by (rule run_simulation_tick_calls)
next
  fix w1 g1 assume run: "run_simulation exs 1 (w, g) = Inr (w1, g1)"
  show len: "length (trader_heap w1) = length (trader_heap w)"
    using tick_calls_heap [OF run [unfolded run_simulation_tick_calls]] by simp
  fix t assume "t < length (trader_heap w1)"
  then have "t < length (trader_heap w)" using len by simp
  then show "account_series (trader_heap w1 ! t) = account_series (trader_heap w ! t)"
    by (rule first_step_records_nothing [OF assms(1) run])
next
  fix w2 g2 assume "run_simulation exs (int S + 1) (w, g) = Inr (w2, g2)"
  then have run: "run_simulation exs (int (Suc S)) (w, g) = Inr (w2, g2)" by (simp add: add.commute)
  show "\<exists>w1 g1. run_simulation exs (int S) (w, g) = Inr (w1, g1)
               \<and> length (trader_heap w1) = length (trader_heap w2)
               \<and> (\<forall>t<length (trader_heap w2). \<forall>k s.
                    account_series (trader_heap w2 ! t) k = Some s \<longrightarrow>
                    (\<exists>s1. account_series (trader_heap w1 ! t) k = Some s1
                       \<and> s = s1 @ [if dd_get 0 (account_balance (trader_heap w1 ! t)) k < 0 then 0
                                    else dd_get 0 (account_balance (trader_heap w1 ! t)) k]))"
    using run_records [OF assms(1,2) run] unfolding clamp_def by simp
next
  fix w' g' t k s
  assume "run_simulation exs (int S) (w, g) = Inr (w', g')" and "t < length (trader_heap w')"
    and "account_series (trader_heap w' ! t) k = Some s"
  then show "s = map (\<lambda>j. if balance_after exs (w, g) j t k < 0 then 0
                            else balance_after exs (w, g) j t k) [0 ..< S]"
    using run_series_closed [OF assms(1,2), unfolded clamp_def] by blast
qed

text \<open>The two exchanges 30 and 31 under \<open>lucky_rng\<close>: after one step trader 0 has its seed
  as only entry and the balance 140001.0018; after two steps that balance is the second and
  last entry, and the balance 120001.0018 with which step 1 ended is in no entry.\<close>

theorem final_step_not_recorded_witness:
  "initial_world small_config = Inr ([0, 1], [0, 1, 2], small_initial) \<and> (1::nat) \<le> 1
   \<and> 0 < MAX_RISK small_config
   \<and> (MAX_RISK small_config + int (NUM_EXCHANGES small_config) - 1) ^ RUIN_DECAY \<le> 2 ^ 63
   \<and> map_sum id (\<lambda>(w', g'). (account_series (trader_heap w' ! 0) 30,
                               account_balance (trader_heap w' ! 0) 30, tick (trader_heap w' ! 0)))
       (run_simulation [0, 1] 1 (small_initial, lucky_rng)) =
     Inr (Some [1], Some (1400010018 / 10000), 0)
   \<and> map_sum id (\<lambda>(w', g'). account_series (trader_heap w' ! 0) 30)
       (run_simulation [0, 1] 2 (small_initial, lucky_rng)) = Inr (Some [1, 1400010018 / 10000])
   \<and> map_sum id (\<lambda>(w', g'). (account_balance (trader_heap w' ! 0) 30, tick (trader_heap w' ! 0)))
       (run_simulation [0, 1] 2 (small_initial, lucky_rng)) = Inr (Some (1200010018 / 10000), 1)
   \<and> balance_after [0, 1] (small_initial, lucky_rng) 0 0 30 = 1
   \<and> balance_after [0, 1] (small_initial, lucky_rng) 1 0 30 = 1400010018 / 10000
   \<and> balance_after [0, 1] (small_initial, lucky_rng) 2 0 30 = 1200010018 / 10000"
proof -
  have le: "(1::nat) \<le> 1" by simp
  have pos: "0 < MAX_RISK small_config" by (simp add: small_config_def)
  have bound: "(MAX_RISK small_config + int (NUM_EXCHANGES small_config) - 1) ^ RUIN_DECAY \<le> 2 ^ 63"
    by (simp add: small_config_def RUIN_DECAY_def)
  note t = final_step_not_recorded [OF initial_world_small le, of lucky_rng]
  from lucky_run_2 obtain w2 g2 where
    run2: "run_simulation [0, 1] 2 (small_initial, lucky_rng) = Inr (w2, g2)"
    by (cases "run_simulation [0, 1] 2 (small_initial, lucky_rng)") auto
  have run2': "run_simulation [0, 1] (int 1 + 1) (small_initial, lucky_rng) = Inr (w2, g2)"
    using run2 by simp
  from t [THEN conjunct2, THEN conjunct2, THEN conjunct2, THEN conjunct2, THEN conjunct2] run2'
  obtain w1 g1 where run1: "run_simulation [0, 1] (int 1) (small_initial, lucky_rng) = Inr (w1, g1)"
    and len: "length (trader_heap w1) = length (trader_heap w2)"
    and rel: "\<forall>t<length (trader_heap w2). \<forall>k s.
                    account_series (trader_heap w2 ! t) k = Some s \<longrightarrow>
                    (\<exists>s1. account_series (trader_heap w1 ! t) k = Some s1
                       \<and> s = s1 @ [if dd_get 0 (account_balance (trader_heap w1 ! t)) k < 0 then 0
                                    else dd_get 0 (account_balance (trader_heap w1 ! t)) k])"
    by blast
  have s1: "account_series (trader_heap w1 ! 0) 30 = Some [1]"
    and b1: "account_balance (trader_heap w1 ! 0) 30 = Some (1400010018 / 10000)"
    using lucky_run_1 run1 by simp_all
  have l2: "0 < length (trader_heap w2)"
    using tick_calls_heap [OF run2 [unfolded run_simulation_tick_calls]]
    by (simp add: small_initial_eq)
  have d2: "30 \<in> dom (account_series (trader_heap w2 ! 0))"
  proof -
    have "run_simulation [0, 1] (int 2) (small_initial, lucky_rng) = Inr (w2, g2)" using run2 by simp
    then have "dom (account_series (trader_heap w2 ! 0)) =
        set (held_zs (exchange_heap small_initial) (trader_heap w2 ! 0))"
      using run_settles [OF _ initial_world_settled [OF initial_world_small], of 2 lucky_rng w2 g2] l2
      by (simp add: settled_def linked_def keys_ok_def)
    moreover have "exchanges (trader_heap w2 ! 0) = exchanges (trader_heap small_initial ! 0)"
      by (rule tick_calls_trader_invariant [OF run2 [unfolded run_simulation_tick_calls],
            where P = "\<lambda>x. exchanges x = exchanges (trader_heap small_initial ! 0)"])
         (simp_all add: small_initial_eq)
    ultimately show ?thesis by (simp add: held_zs_def small_initial_eq)
  qed
  then obtain s where s: "account_series (trader_heap w2 ! 0) 30 = Some s" by auto
  from rel l2 s have "\<exists>s1. account_series (trader_heap w1 ! 0) 30 = Some s1
      \<and> s = s1 @ [if dd_get 0 (account_balance (trader_heap w1 ! 0)) 30 < 0 then 0
                   else dd_get 0 (account_balance (trader_heap w1 ! 0)) 30]"
    by blast
  then have "s = [1, 1400010018 / 10000]" by (simp add: s1 b1 dd_get_def)
  then have s2: "account_series (trader_heap w2 ! 0) 30 = Some [1, 1400010018 / 10000]"
    using s by simp
  have r2: "map_sum id (\<lambda>(w', g'). account_series (trader_heap w' ! 0) 30)
       (run_simulation [0, 1] 2 (small_initial, lucky_rng)) = Inr (Some [1, 1400010018 / 10000])"
    unfolding run2 using s2 by simp
  have "run_simulation [0, 1] (int 0) (small_initial, lucky_rng) = Inr (small_initial, lucky_rng)"
    by (simp add: run_simulation_def)
  then have ba0: "balance_after [0, 1] (small_initial, lucky_rng) 0 0 30 = 1"
    by (simp add: balance_after_def small_initial_eq dd_get_def)
  have ba1: "balance_after [0, 1] (small_initial, lucky_rng) 1 0 30 = 1400010018 / 10000"
    using balance_after_Inr [OF run1, of 0 30] b1 by (simp add: dd_get_def)
  have "run_simulation [0, 1] (int 2) (small_initial, lucky_rng) = Inr (w2, g2)" using run2 by simp
  then have "balance_after [0, 1] (small_initial, lucky_rng) 2 0 30 =
      dd_get 0 (account_balance (trader_heap w2 ! 0)) 30"
    by (rule balance_after_Inr)
  moreover have "account_balance (trader_heap w2 ! 0) 30 = Some (1200010018 / 10000)"
    using lucky_run_2 unfolding run2 by simp
  ultimately have ba2: "balance_after [0, 1] (small_initial, lucky_rng) 2 0 30 = 1200010018 / 10000"
    by (simp add: dd_get_def)
  show ?thesis
    by (intro conjI) (fact initial_world_small, fact le, fact pos, fact bound, fact lucky_run_1,
        fact r2, fact lucky_run_2, fact ba0, fact ba1, fact ba2)
qed

subsection \<open>C6: the sentinel is finite\<close>




end
